theory Spec2Isabelle
  imports Complex_Main "HOL-Library.Sublist" "HOL-Library.Log_Nat"
begin

section \<open>The download table (download.service.ts)\<close>

text \<open>
  The lifecycle states a \<open>DownloadStatus\<close> goes through and the export formats a
  request may name. Both types are declared in \<open>types/responses.ts\<close>; the
  constructors are the string literals the service writes and compares.
\<close>

datatype download_state = Queued | Downloading | Processing | Completed | Failed

datatype export_format = Cbz | Images | Pdf | Epub

text \<open>
  The errors the service raises: the typed errors built by \<open>Errors.*\<close> and the
  plain \<open>new Error(message)\<close>.
\<close>

datatype api_error =
    SourceNotFound string
  | MangaNotFound string
  | DownloadNotFound string
  | BadRequest string
  | NotFound string
  | Error string

record DownloadRequest =
  req_sourceId :: string
  req_mangaId :: string
  req_chapterIds :: "string list"
  req_format :: "export_format option"
  req_downloadPath :: "string option"

record DownloadStatus =
  id' :: string
  sourceId :: string
  mangaId :: string
  chapterIds :: "string list"
  status :: download_state
  progress :: int
  format :: export_format
  downloadPath :: "string option"
  createdAt :: string
  updatedAt :: string
  mangaTitle :: "string option"
  currentChapter :: "string option"
  completedAt :: "string option"
  error :: "string option"
  fileUrl :: "string option"

text \<open>
  \<open>Partial<DownloadStatus>\<close>: every field may be named or left out. \<open>None\<close> is a
  field the update does not name.
\<close>

record DownloadStatusPartial =
  p_id :: "string option"
  p_sourceId :: "string option"
  p_mangaId :: "string option"
  p_chapterIds :: "string list option"
  p_status :: "download_state option"
  p_progress :: "int option"
  p_format :: "export_format option"
  p_downloadPath :: "string option"
  p_createdAt :: "string option"
  p_updatedAt :: "string option"
  p_mangaTitle :: "string option"
  p_currentChapter :: "string option"
  p_completedAt :: "string option"
  p_error :: "string option"
  p_fileUrl :: "string option"

definition no_update :: DownloadStatusPartial where
  "no_update = \<lparr> p_id = None, p_sourceId = None, p_mangaId = None, p_chapterIds = None,
     p_status = None, p_progress = None, p_format = None, p_downloadPath = None,
     p_createdAt = None, p_updatedAt = None, p_mangaTitle = None, p_currentChapter = None,
     p_completedAt = None, p_error = None, p_fileUrl = None \<rparr>"

text \<open>
  What lies outside the service: the helpers it imports (\<open>SanitizeFileName\<close>, Node's
  \<open>path\<close> and \<open>fs\<close>), the clock and the text of the typed errors.
  \<open>toISOString k\<close> is what the \<open>k\<close>-th evaluation of
  \<open>new Date().toISOString()\<close> returns; \<open>fs_mkdir\<close> returns the message of the error
  it raises, if any; \<open>error_message\<close> is the \<open>message\<close> property of an error built
  by \<open>Errors.*\<close>.
\<close>

record env =
  SanitizeFileName :: "string \<Rightarrow> string"
  path_join :: "string list \<Rightarrow> string"
  path_resolve :: "string \<Rightarrow> string"
  path_dirname :: "string \<Rightarrow> string"
  fs_mkdir :: "string \<Rightarrow> string option"
  fs_access :: "string \<Rightarrow> bool"
  fs_readdir :: "string \<Rightarrow> api_error + string list"
  toISOString :: "nat \<Rightarrow> string"
  error_message :: "api_error \<Rightarrow> string"

text \<open>
  The service object: the table \<open>downloads\<close> (a \<open>Map\<close> from identity to the status
  object), the default directory, and the number of clock readings taken so far.
\<close>

record DownloadService =
  downloads :: "string \<rightharpoonup> DownloadStatus"
  downloadDir :: string
  ticks :: nat

text \<open>\<open>error.message\<close>: the text given to \<open>new Error\<close>, or that of a typed error.\<close>

definition message :: "env \<Rightarrow> api_error \<Rightarrow> string" where
  "message e err = (case err of Error m \<Rightarrow> m | _ \<Rightarrow> error_message e err)"

text \<open>\<open>a || b\<close> on an optional string: the empty string and \<open>undefined\<close> are falsy.\<close>

definition or_else :: "string option \<Rightarrow> string \<Rightarrow> string" where
  "or_else a b = (case a of None \<Rightarrow> b | Some v \<Rightarrow> if v = [] then b else v)"

text \<open>\<open>Object.assign(download, updates)\<close>: every named field is overwritten.\<close>

definition assign :: "DownloadStatus \<Rightarrow> DownloadStatusPartial \<Rightarrow> DownloadStatus" where
  "assign d u = d \<lparr>
     id' := (case p_id u of None \<Rightarrow> id' d | Some v \<Rightarrow> v),
     sourceId := (case p_sourceId u of None \<Rightarrow> sourceId d | Some v \<Rightarrow> v),
     mangaId := (case p_mangaId u of None \<Rightarrow> mangaId d | Some v \<Rightarrow> v),
     chapterIds := (case p_chapterIds u of None \<Rightarrow> chapterIds d | Some v \<Rightarrow> v),
     status := (case p_status u of None \<Rightarrow> status d | Some v \<Rightarrow> v),
     progress := (case p_progress u of None \<Rightarrow> progress d | Some v \<Rightarrow> v),
     format := (case p_format u of None \<Rightarrow> format d | Some v \<Rightarrow> v),
     downloadPath := (case p_downloadPath u of None \<Rightarrow> downloadPath d | Some v \<Rightarrow> Some v),
     createdAt := (case p_createdAt u of None \<Rightarrow> createdAt d | Some v \<Rightarrow> v),
     updatedAt := (case p_updatedAt u of None \<Rightarrow> updatedAt d | Some v \<Rightarrow> v),
     mangaTitle := (case p_mangaTitle u of None \<Rightarrow> mangaTitle d | Some v \<Rightarrow> Some v),
     currentChapter := (case p_currentChapter u of None \<Rightarrow> currentChapter d | Some v \<Rightarrow> Some v),
     completedAt := (case p_completedAt u of None \<Rightarrow> completedAt d | Some v \<Rightarrow> Some v),
     error := (case p_error u of None \<Rightarrow> error d | Some v \<Rightarrow> Some v),
     fileUrl := (case p_fileUrl u of None \<Rightarrow> fileUrl d | Some v \<Rightarrow> Some v) \<rparr>"

text \<open>
  \<open>updateDownloadStatus\<close>: nothing happens for an identity the table does not hold;
  otherwise the updates are assigned, then \<open>updatedAt\<close> with a fresh clock reading
  (the last source of \<open>Object.assign\<close> wins), and the object is stored again.
\<close>

definition updateDownloadStatus ::
  "env \<Rightarrow> DownloadService \<Rightarrow> string \<Rightarrow> DownloadStatusPartial \<Rightarrow> DownloadService" where
  "updateDownloadStatus e s downloadId updates =
     (case downloads s downloadId of
        None \<Rightarrow> s
      | Some download \<Rightarrow>
          s \<lparr> downloads := (downloads s)(downloadId \<mapsto>
                 (assign download updates) \<lparr> updatedAt := toISOString e (ticks s) \<rparr>),
              ticks := Suc (ticks s) \<rparr>)"

definition getDownload :: "DownloadService \<Rightarrow> string \<Rightarrow> api_error + DownloadStatus" where
  "getDownload s downloadId =
     (case downloads s downloadId of
        None \<Rightarrow> Inl (DownloadNotFound downloadId)
      | Some download \<Rightarrow> Inr download)"

definition getDownloadFilePath :: "env \<Rightarrow> DownloadService \<Rightarrow> string \<Rightarrow> api_error + string" where
  "getDownloadFilePath e s downloadId =
     (case getDownload s downloadId of
        Inl err \<Rightarrow> Inl err
      | Inr download \<Rightarrow>
          if status download \<noteq> Completed then Inl (BadRequest ''Download is not completed yet'')
          else
            let folderName = SanitizeFileName e (or_else (mangaTitle download) (mangaId download));
                baseDir = or_else (downloadPath download) (downloadDir s);
                mangaDir = path_join e [baseDir, folderName]
            in if \<not> fs_access e mangaDir then Inl (NotFound ''Download file'')
               else (case fs_readdir e mangaDir of
                       Inl err \<Rightarrow> Inl err
                     | Inr [] \<Rightarrow> Inl (NotFound ''Download file'')
                     | Inr (entry # _) \<Rightarrow> Inr (path_join e [mangaDir, entry])))"


section \<open>JavaScript numbers\<close>

text \<open>
  A JavaScript number is an IEEE 754 binary64 value. The finite ones are modelled as the
  reals they denote; every arithmetic operation returns the exact result rounded to the
  nearest representable value, ties to the even significand. \<open>expo x\<close> is the binary
  exponent of a positive \<open>x\<close> (\<open>2 powi expo x \<le> x < 2 powi (expo x + 1)\<close>),
  \<open>quantum x\<close> the exponent of the last place of the format at \<open>x\<close> (53 significant
  bits, and the fixed spacing \<open>2 powi (- 1074)\<close> of the subnormal numbers), and \<open>fl\<close>
  the rounding.
\<close>

definition round_even :: "real \<Rightarrow> int" where
  "round_even x =
     (let f = \<lfloor>x\<rfloor>; r = x - of_int f
      in if r < 1/2 then f else if 1/2 < r then f + 1 else if even f then f else f + 1)"

definition expo :: "real \<Rightarrow> int" where
  "expo x = (if 1 \<le> x then int (floorlog 2 (nat \<lfloor>x\<rfloor>)) - 1
             else - int (floorlog 2 (nat (\<lceil>1 / x\<rceil> - 1))))"

definition quantum :: "real \<Rightarrow> int" where
  "quantum x = max (expo x - 52) (- 1074)"

definition fl :: "real \<Rightarrow> real" where
  "fl x = (if x = 0 then 0
           else sgn x * (of_int (round_even (\<bar>x\<bar> / 2 powi quantum \<bar>x\<bar>)) * 2 powi quantum \<bar>x\<bar>))"

text \<open>
  The operators \<open>/\<close>, \<open>+\<close> and \<open>*\<close> on finite numbers whose result stays below
  the overflow threshold (the progress arithmetic works on array indices and lengths,
  far below it), and \<open>Math.floor\<close>.
\<close>

definition js_div :: "real \<Rightarrow> real \<Rightarrow> real" where
  "js_div a b = fl (a / b)"

definition js_add :: "real \<Rightarrow> real \<Rightarrow> real" where
  "js_add a b = fl (a + b)"

definition js_mul :: "real \<Rightarrow> real \<Rightarrow> real" where
  "js_mul a b = fl (a * b)"

definition Math_floor :: "real \<Rightarrow> int" where
  "Math_floor x = \<lfloor>x\<rfloor>"

text \<open>
  A number that may have overflowed: a rounded value of \<open>2 ^ 1024\<close> or more is
  \<open>Infinity\<close>.
\<close>

datatype number = Finite real | Infinity

definition to_number :: "real \<Rightarrow> number" where
  "to_number x = (if 2 ^ 1024 \<le> fl x then Infinity else Finite (fl x))"

subsection \<open>Decimal text of a number\<close>

definition is_digit :: "char \<Rightarrow> bool" where
  "is_digit c \<longleftrightarrow> c \<in> set ''0123456789''"

definition digit_val :: "char \<Rightarrow> nat" where
  "digit_val c = of_char c - 48"

definition digit_char :: "nat \<Rightarrow> char" where
  "digit_char d = ''0123456789'' ! d"

fun digits_val :: "nat \<Rightarrow> string \<Rightarrow> nat" where
  "digits_val acc [] = acc"
| "digits_val acc (c # cs) = digits_val (10 * acc + digit_val c) cs"

text \<open>
  The mathematical value of a text of the form \<open>digits\<close> or \<open>digits.digits\<close>, and
  \<open>parseFloat\<close> on such a text: its value, rounded.
\<close>

definition decimal_value :: "string \<Rightarrow> real" where
  "decimal_value m =
     (let ip = takeWhile is_digit m; fp = drop (Suc (length ip)) m
      in of_nat (digits_val 0 ip) + of_nat (digits_val 0 fp) / 10 ^ length fp)"

definition parseFloat :: "string \<Rightarrow> number" where
  "parseFloat m = to_number (decimal_value m)"

text \<open>
  \<open>Number.prototype.toString\<close> (ECMAScript, Number::toString with radix 10) on a
  number that is not negative: the digits \<open>s\<close> are the fewest (\<open>k\<close> of them) for
  which \<open>s * 10 powi (n - k)\<close> rounds to the number, the closest such value when there
  are several. \<open>dec_expo x\<close> is the \<open>n\<close> with \<open>10 powi (n - 1) \<le> x < 10 powi n\<close>.
  Seventeen digits always identify a binary64 value.
\<close>

definition dec_expo :: "real \<Rightarrow> int" where
  "dec_expo x = (if 1 \<le> x then int (floorlog 10 (nat \<lfloor>x\<rfloor>))
                 else 1 - int (floorlog 10 (nat (\<lceil>1 / x\<rceil> - 1))))"

fun nat_digits :: "nat \<Rightarrow> nat \<Rightarrow> string" where
  "nat_digits 0 s = []"
| "nat_digits (Suc k) s = nat_digits k (s div 10) @ [digit_char (s mod 10)]"

definition show_nat :: "nat \<Rightarrow> string" where
  "show_nat n = (if n = 0 then ''0'' else nat_digits (floorlog 10 n) n)"

definition candidate :: "real \<Rightarrow> nat \<Rightarrow> real option" where
  "candidate x k =
     (let scale = 10 powi (dec_expo x - int k);
          lo = of_int \<lfloor>x / scale\<rfloor> * scale;
          hi = lo + scale;
          ok_lo = (fl lo = x);
          ok_hi = (fl hi = x)
      in if ok_lo \<and> ok_hi then
           (if x - lo < hi - x then Some lo
            else if hi - x < x - lo then Some hi
            else if even \<lfloor>x / scale\<rfloor> then Some lo else Some hi)
         else if ok_lo then Some lo
         else if ok_hi then Some hi
         else None)"

fun shortest :: "real \<Rightarrow> nat \<Rightarrow> nat \<Rightarrow> nat \<times> real" where
  "shortest x k 0 = (k, x)"
| "shortest x k (Suc fuel) =
     (case candidate x k of Some c \<Rightarrow> (k, c) | None \<Rightarrow> shortest x (Suc k) fuel)"

definition Number_toString :: "number \<Rightarrow> string" where
  "Number_toString v =
     (case v of
        Infinity \<Rightarrow> ''Infinity''
      | Finite x \<Rightarrow>
          if x = 0 then ''0''
          else
            let (k, c) = shortest x 1 17;
                n = dec_expo c;
                s = nat \<lfloor>c / 10 powi (n - int k)\<rfloor>;
                ds = nat_digits k s
            in if int k \<le> n \<and> n \<le> 21 then ds @ replicate (nat (n - int k)) (CHR ''0'')
               else if 0 < n \<and> n \<le> 21 then take (nat n) ds @ ''.'' @ drop (nat n) ds
               else if - 6 < n \<and> n \<le> 0 then ''0.'' @ replicate (nat (- n)) (CHR ''0'') @ ds
               else
                 let ex = (if 0 \<le> n - 1 then ''+'' else ''-'') @ show_nat (nat \<bar>n - 1\<bar>)
                 in if k = 1 then ds @ ''e'' @ ex
                    else take 1 ds @ ''.'' @ drop 1 ds @ ''e'' @ ex)"

section \<open>Chapter labels (extractChapterNumber)\<close>

text \<open>
  The four regular expressions of \<open>extractChapterNumber\<close>, each as the function that
  returns its capture group. \<open>number_at\<close> is \<open>(\d+(?:\.\d+)?)\<close> matched at the start
  of a text: both quantifiers are greedy and nothing follows the group, so the first
  match takes every digit. \<open>search\<close> tries the start positions from left to right, as
  an unanchored expression does. Titles are texts of 8-bit code units.
\<close>

definition number_at :: "string \<Rightarrow> string option" where
  "number_at s =
     (let ip = takeWhile is_digit s; r = dropWhile is_digit s
      in if ip = [] then None
         else (case r of
                 c # r' \<Rightarrow>
                   if c = CHR ''.'' \<and> takeWhile is_digit r' \<noteq> []
                   then Some (ip @ ''.'' @ takeWhile is_digit r')
                   else Some ip
               | [] \<Rightarrow> Some ip))"

text \<open>
  The flag \<open>i\<close>: a code unit matches a letter of the pattern when their upper-case
  forms agree; no code unit outside ASCII has an ASCII upper-case form. \<open>upper\<close> is the
  code of the upper-case form.
\<close>

definition upper :: "char \<Rightarrow> nat" where
  "upper c = (let n = of_char c in if 97 \<le> n \<and> n \<le> 122 then n - 32 else n)"

fun ci_prefix :: "string \<Rightarrow> string \<Rightarrow> string option" where
  "ci_prefix [] s = Some s"
| "ci_prefix (p # ps) [] = None"
| "ci_prefix (p # ps) (c # cs) = (if upper c = upper p then ci_prefix ps cs else None)"

text \<open>\<open>\s\<close> on 8-bit code units: tab, line feed, vertical tab, form feed, carriage
  return, space and the no-break space.\<close>

definition is_space :: "char \<Rightarrow> bool" where
  "is_space c \<longleftrightarrow> (of_char c :: nat) \<in> {9, 10, 11, 12, 13, 32, 160}"

text \<open>\<open>/Ch\.?(\d+(?:\.\d+)?)/i\<close> at a position: with the optional dot first, without
  it when that fails.\<close>

definition pattern_Ch_at :: "string \<Rightarrow> string option" where
  "pattern_Ch_at s =
     (case ci_prefix ''Ch'' s of
        None \<Rightarrow> None
      | Some r \<Rightarrow>
          (case r of
             c # r' \<Rightarrow>
               if c = CHR ''.'' then
                 (case number_at r' of Some m \<Rightarrow> Some m | None \<Rightarrow> number_at r)
               else number_at r
           | [] \<Rightarrow> number_at r))"

text \<open>\<open>/Chapter\s*(\d+(?:\.\d+)?)/i\<close> at a position.\<close>

definition pattern_Chapter_at :: "string \<Rightarrow> string option" where
  "pattern_Chapter_at s =
     (case ci_prefix ''Chapter'' s of
        None \<Rightarrow> None
      | Some r \<Rightarrow> number_at (dropWhile is_space r))"

fun search :: "(string \<Rightarrow> string option) \<Rightarrow> string \<Rightarrow> string option" where
  "search f [] = f []"
| "search f (c # cs) = (case f (c # cs) of Some m \<Rightarrow> Some m | None \<Rightarrow> search f cs)"

definition patterns :: "(string \<Rightarrow> string option) list" where
  "patterns = [search pattern_Ch_at, search pattern_Chapter_at, number_at, search number_at]"

text \<open>The loop over the patterns: the capture of the first one that matches.\<close>

fun first_match :: "(string \<Rightarrow> string option) list \<Rightarrow> string \<Rightarrow> string option" where
  "first_match [] title = None"
| "first_match (pattern # rest) title =
     (case pattern title of Some m \<Rightarrow> Some m | None \<Rightarrow> first_match rest title)"

definition extractChapterNumber :: "env \<Rightarrow> string \<Rightarrow> string" where
  "extractChapterNumber e chapterTitle =
     (case first_match patterns chapterTitle of
        Some m \<Rightarrow> Number_toString (parseFloat m)
      | None \<Rightarrow> SanitizeFileName e chapterTitle)"


subsection \<open>The patterns, read on a title\<close>

text \<open>
  The vocabulary in which the labels are stated. A number is a run of digits, or two
  runs joined by a dot. \<open>number_before m b\<close>: the text \<open>m @ b\<close> begins with the
  number \<open>m\<close>, and \<open>b\<close> continues neither its digits nor, with a dot and a digit,
  the number. \<open>ci_eq\<close> compares two texts up to the case of their ASCII letters.
  \<open>Ch_here s\<close>: the text \<open>s\<close> begins with \<open>Ch\<close>, an optional dot and a digit, the
  letters in any case; \<open>Chapter_here s\<close>: it begins with \<open>Chapter\<close>, any white space
  and a digit.
\<close>

definition digits :: "string \<Rightarrow> bool" where
  "digits ds \<longleftrightarrow> ds \<noteq> [] \<and> (\<forall>c \<in> set ds. is_digit c)"

definition starts_digit :: "string \<Rightarrow> bool" where
  "starts_digit b \<longleftrightarrow> (case b of [] \<Rightarrow> False | c # r \<Rightarrow> is_digit c)"

definition number_before :: "string \<Rightarrow> string \<Rightarrow> bool" where
  "number_before m b \<longleftrightarrow>
     \<not> starts_digit b \<and>
     (digits m \<and> \<not> (\<exists>b'. b = CHR ''.'' # b' \<and> starts_digit b') \<or>
      (\<exists>ip fp. m = ip @ ''.'' @ fp \<and> digits ip \<and> digits fp))"

definition ci_eq :: "string \<Rightarrow> string \<Rightarrow> bool" where
  "ci_eq x y \<longleftrightarrow> map upper x = map upper y"

definition Ch_here :: "string \<Rightarrow> bool" where
  "Ch_here s \<longleftrightarrow>
     ci_eq (take 2 s) ''Ch'' \<and>
     (starts_digit (drop 2 s) \<or> take 1 (drop 2 s) = ''.'' \<and> starts_digit (drop 3 s))"

definition Chapter_here :: "string \<Rightarrow> bool" where
  "Chapter_here s \<longleftrightarrow>
     ci_eq (take 7 s) ''Chapter'' \<and> starts_digit (dropWhile is_space (drop 7 s))"


section \<open>The download pipeline (download.service.ts)\<close>

text \<open>
  The plugin registry as the service reads it. A page yields its image or the message of
  the error \<open>page.Fetch\<close> raises; \<open>ch_Update\<close> is the page list a chapter holds after
  \<open>chapter.Update()\<close>, or the error that call raises; \<open>mg_Entries\<close> and
  \<open>pl_Entries\<close> are what awaiting \<open>Entries\<close> gives.
\<close>

record Page =
  pg_Fetch :: "string + string"

record Chapter =
  ch_Identifier :: string
  ch_Title :: string
  ch_Update :: "api_error + Page list"

record Manga =
  mg_Identifier :: string
  mg_Title :: string
  mg_Entries :: "api_error + Chapter list"

record Plugin =
  pl_Identifier :: string
  pl_Entries :: "api_error + Manga list"

text \<open>
  The engine services: the plugin list, the temporary storage (\<open>SaveTemporary\<close> returns
  a key or the message of its error) and the exporter chosen by the format.
\<close>

record engine =
  WebsitePlugins :: "Plugin list"
  SaveTemporary :: "string \<Rightarrow> string + string"
  RemoveTemporary :: "string list \<Rightarrow> api_error option"
  Export :: "export_format \<Rightarrow> (nat \<times> string) list \<Rightarrow> string \<Rightarrow> string \<Rightarrow> string \<Rightarrow> api_error option"

text \<open>The object literals the service passes to \<open>updateDownloadStatus\<close>.\<close>

definition update_downloading :: DownloadStatusPartial where
  "update_downloading = no_update \<lparr> p_status := Some Downloading \<rparr>"

definition update_failed :: "string \<Rightarrow> DownloadStatusPartial" where
  "update_failed msg = no_update \<lparr> p_status := Some Failed, p_error := Some msg \<rparr>"

definition update_processing :: "string \<Rightarrow> DownloadStatusPartial" where
  "update_processing title =
     no_update \<lparr> p_status := Some Processing, p_progress := Some 0, p_mangaTitle := Some title \<rparr>"

definition update_completed :: "string \<Rightarrow> string \<Rightarrow> DownloadStatusPartial" where
  "update_completed t url =
     no_update \<lparr> p_status := Some Completed, p_progress := Some 100,
                 p_completedAt := Some t, p_fileUrl := Some url \<rparr>"

definition update_chapter :: "string \<Rightarrow> int \<Rightarrow> DownloadStatusPartial" where
  "update_chapter title p = no_update \<lparr> p_currentChapter := Some title, p_progress := Some p \<rparr>"

definition update_page :: "int \<Rightarrow> DownloadStatusPartial" where
  "update_page p = no_update \<lparr> p_progress := Some p \<rparr>"

definition status_updates :: "DownloadStatusPartial set" where
  "status_updates =
     {update_downloading} \<union> range update_failed \<union> range update_processing
     \<union> {u. \<exists>t url. u = update_completed t url}
     \<union> {u. \<exists>title p. u = update_chapter title p} \<union> range update_page"

text \<open>
  The calls that leave the service, each recorded with the service state in which it is
  issued: \<open>page.Fetch\<close> of a page of a chapter, and \<open>exporter.Export\<close>.
\<close>

datatype event = PageFetch nat nat | ExportCall nat string

type_synonym trace = "(event \<times> DownloadService) list"

fun join :: "string \<Rightarrow> string list \<Rightarrow> string" where
  "join sep [] = []"
| "join sep [x] = x"
| "join sep (x # y # ys) = x @ sep @ join sep (y # ys)"

definition format_name :: "export_format \<Rightarrow> string" where
  "format_name f = (case f of Cbz \<Rightarrow> ''cbz'' | Images \<Rightarrow> ''images'' | Pdf \<Rightarrow> ''pdf'' | Epub \<Rightarrow> ''epub'')"

definition page_error :: "nat \<Rightarrow> string \<Rightarrow> api_error" where
  "page_error pageIndex errorMessage =
     Error (''Failed to download page '' @ show_nat (pageIndex + 1) @ '': '' @ errorMessage)"

text \<open>
  The loop over the pages of one chapter, from \<open>pageIndex\<close> on. After a page is
  stored the progress is set from
  \<open>(chapterIndex + (pageIndex + 1) / pages.length) / chapters.length\<close> times 90.
\<close>

fun fetchPages ::
  "env \<Rightarrow> engine \<Rightarrow> string \<Rightarrow> nat \<Rightarrow> nat \<Rightarrow> nat \<Rightarrow> nat \<Rightarrow> Page list \<Rightarrow> DownloadService
     \<Rightarrow> (api_error + (nat \<times> string) list) \<times> DownloadService \<times> trace" where
  "fetchPages e g downloadId chapterIndex nChapters nPages pageIndex [] s = (Inr [], s, [])"
| "fetchPages e g downloadId chapterIndex nChapters nPages pageIndex (page # rest) s =
     (case pg_Fetch page of
        Inl errorMessage \<Rightarrow>
          (Inl (page_error pageIndex errorMessage), s, [(PageFetch chapterIndex pageIndex, s)])
      | Inr imageBlob \<Rightarrow>
          (case SaveTemporary g imageBlob of
             Inl errorMessage \<Rightarrow>
               (Inl (page_error pageIndex errorMessage), s, [(PageFetch chapterIndex pageIndex, s)])
           | Inr tempKey \<Rightarrow>
               let chapterProgress =
                     js_div (js_add (of_nat chapterIndex)
                                    (js_div (of_nat (pageIndex + 1)) (of_nat nPages)))
                            (of_nat nChapters);
                   s1 = updateDownloadStatus e s downloadId
                          (update_page (Math_floor (js_mul chapterProgress 90)))
               in (case fetchPages e g downloadId chapterIndex nChapters nPages (pageIndex + 1) rest s1 of
                     (Inl err, s2, tr) \<Rightarrow> (Inl err, s2, (PageFetch chapterIndex pageIndex, s) # tr)
                   | (Inr resourceMap, s2, tr) \<Rightarrow>
                       (Inr ((pageIndex, tempKey) # resourceMap), s2,
                        (PageFetch chapterIndex pageIndex, s) # tr))))"

text \<open>
  The export of one chapter whose pages are stored: the output path from the format, the
  parent directory, \<open>exporter.Export\<close>, and \<open>RemoveTemporary\<close> in the
  \<open>finally\<close> block (an error it raises replaces the one of the export).
\<close>

definition exportChapter ::
  "env \<Rightarrow> engine \<Rightarrow> export_format \<Rightarrow> string \<Rightarrow> string \<Rightarrow> nat \<Rightarrow> Chapter
     \<Rightarrow> (nat \<times> string) list \<Rightarrow> DownloadService \<Rightarrow> (api_error + string) \<times> trace" where
  "exportChapter e g fmt downloadPath' mangaTitle' chapterIndex chapter resourceMap s =
     (let chapterNumber = extractChapterNumber e (ch_Title chapter);
          sanitizedMangaTitle = SanitizeFileName e mangaTitle';
          target =
            (if fmt = Cbz then
               Some (path_join e [downloadPath', sanitizedMangaTitle, ''chapter_'' @ chapterNumber @ ''.cbz''])
             else if fmt = Images then
               Some (path_join e [downloadPath', sanitizedMangaTitle, ''chapter_'' @ chapterNumber])
             else None)
      in case target of
           None \<Rightarrow> (Inl (Error (''Unsupported format: '' @ format_name fmt)), [])
         | Some outputPath \<Rightarrow>
             (case fs_mkdir e (path_dirname e outputPath) of
                Some msg \<Rightarrow> (Inl (Error msg), [])
              | None \<Rightarrow>
                  let exported = Export g fmt resourceMap outputPath (ch_Title chapter) mangaTitle';
                      removed = RemoveTemporary g (map snd resourceMap)
                  in ((case removed of
                         Some err \<Rightarrow> Inl err
                       | None \<Rightarrow> (case exported of Some err \<Rightarrow> Inl err | None \<Rightarrow> Inr outputPath)),
                      [(ExportCall chapterIndex outputPath, s)])))"

text \<open>
  The loop over the chapters, from \<open>chapterIndex\<close> on: a chapter without pages is
  skipped; the first chapter that has pages is fetched and exported, and the function
  returns.
\<close>

fun downloadChapters ::
  "env \<Rightarrow> engine \<Rightarrow> string \<Rightarrow> export_format \<Rightarrow> string \<Rightarrow> string \<Rightarrow> nat \<Rightarrow> nat
     \<Rightarrow> Chapter list \<Rightarrow> DownloadService \<Rightarrow> (api_error + string) \<times> DownloadService \<times> trace" where
  "downloadChapters e g downloadId fmt mangaTitle' downloadPath' nChapters chapterIndex [] s =
     (Inl (Error ''No chapters were successfully downloaded''), s, [])"
| "downloadChapters e g downloadId fmt mangaTitle' downloadPath' nChapters chapterIndex (chapter # rest) s =
     (let s1 = updateDownloadStatus e s downloadId
                 (update_chapter (ch_Title chapter)
                    (Math_floor (js_mul (js_div (of_nat chapterIndex) (of_nat nChapters)) 90)))
      in case ch_Update chapter of
           Inl err \<Rightarrow> (Inl err, s1, [])
         | Inr pages \<Rightarrow>
             if length pages = 0 then
               downloadChapters e g downloadId fmt mangaTitle' downloadPath' nChapters
                 (chapterIndex + 1) rest s1
             else
               (case fetchPages e g downloadId chapterIndex nChapters (length pages) 0 pages s1 of
                  (Inl err, s2, tr) \<Rightarrow> (Inl err, s2, tr)
                | (Inr resourceMap, s2, tr) \<Rightarrow>
                    (case exportChapter e g fmt downloadPath' mangaTitle' chapterIndex chapter
                            resourceMap s2 of
                       (r, tr') \<Rightarrow> (r, s2, tr @ tr'))))"

definition downloadAndExport ::
  "env \<Rightarrow> engine \<Rightarrow> DownloadService \<Rightarrow> string \<Rightarrow> DownloadRequest \<Rightarrow> Chapter list \<Rightarrow> string
     \<Rightarrow> string \<Rightarrow> (api_error + string) \<times> DownloadService \<times> trace" where
  "downloadAndExport e g s downloadId request chapters mangaTitle' downloadPath' =
     downloadChapters e g downloadId
       (case req_format request of None \<Rightarrow> Cbz | Some f \<Rightarrow> f)
       mangaTitle' downloadPath' (length chapters) 0 chapters s"

text \<open>
  \<open>processDownload\<close>. Its first statements, up to the first \<open>await\<close>, run inside the
  call that creates the promise: the update to \<open>downloading\<close> and the lookup of the
  plugin.
\<close>

definition processDownload_start ::
  "env \<Rightarrow> engine \<Rightarrow> DownloadService \<Rightarrow> string \<Rightarrow> DownloadRequest
     \<Rightarrow> (api_error + Plugin) \<times> DownloadService" where
  "processDownload_start e g s downloadId request =
     (let s1 = updateDownloadStatus e s downloadId update_downloading
      in case find (\<lambda>p. pl_Identifier p = req_sourceId request) (WebsitePlugins g) of
           None \<Rightarrow> (Inl (SourceNotFound (req_sourceId request)), s1)
         | Some plugin \<Rightarrow> (Inr plugin, s1))"

definition no_valid_chapters :: "Chapter list \<Rightarrow> DownloadRequest \<Rightarrow> api_error" where
  "no_valid_chapters chapters request =
     Error (''No valid chapters found to download. Available chapter IDs: ''
            @ join '', '' (map ch_Identifier chapters)
            @ ''. Requested: '' @ join '', '' (req_chapterIds request))"

definition processDownload ::
  "env \<Rightarrow> engine \<Rightarrow> DownloadService \<Rightarrow> string \<Rightarrow> DownloadRequest \<Rightarrow> string
     \<Rightarrow> (api_error + unit) \<times> DownloadService \<times> trace" where
  "processDownload e g s downloadId request downloadPath' =
     (case processDownload_start e g s downloadId request of
        (Inl err, s1) \<Rightarrow> (Inl err, s1, [])
      | (Inr plugin, s1) \<Rightarrow>
          (case pl_Entries plugin of
             Inl err \<Rightarrow> (Inl err, s1, [])
           | Inr mangas \<Rightarrow>
               (case find (\<lambda>m. mg_Identifier m = req_mangaId request) mangas of
                  None \<Rightarrow> (Inl (MangaNotFound (req_mangaId request)), s1, [])
                | Some manga \<Rightarrow>
                    (case mg_Entries manga of
                       Inl err \<Rightarrow> (Inl err, s1, [])
                     | Inr chapters \<Rightarrow>
                         let chaptersToDownload =
                               filter (\<lambda>c. ch_Identifier c \<in> set (req_chapterIds request)) chapters
                         in if length chaptersToDownload = 0 then
                              (Inl (no_valid_chapters chapters request), s1, [])
                            else
                              let s2 = updateDownloadStatus e s1 downloadId
                                         (update_processing (mg_Title manga))
                              in (case downloadAndExport e g s2 downloadId request
                                         chaptersToDownload (mg_Title manga) downloadPath' of
                                    (Inl err, s3, tr) \<Rightarrow> (Inl err, s3, tr)
                                  | (Inr outputPath, s3, tr) \<Rightarrow>
                                      let completed = toISOString e (ticks s3);
                                          s4 = s3 \<lparr> ticks := Suc (ticks s3) \<rparr>
                                      in (Inr (),
                                          updateDownloadStatus e s4 downloadId
                                            (update_completed completed
                                               (''/api/v1/downloads/'' @ downloadId @ ''/file'')),
                                          tr))))))"

text \<open>
  The rejection handler \<open>createDownload\<close> attaches to the promise of
  \<open>processDownload\<close>, and a download run to its end with nothing else of the service
  in between.
\<close>

definition processDownload_catch ::
  "env \<Rightarrow> DownloadService \<Rightarrow> string \<Rightarrow> api_error \<Rightarrow> DownloadService" where
  "processDownload_catch e s downloadId err =
     updateDownloadStatus e s downloadId (update_failed (message e err))"

definition runDownload ::
  "env \<Rightarrow> engine \<Rightarrow> DownloadService \<Rightarrow> string \<Rightarrow> DownloadRequest \<Rightarrow> string \<Rightarrow> DownloadService" where
  "runDownload e g s downloadId request downloadPath' =
     (case processDownload e g s downloadId request downloadPath' of
        (Inl err, s', tr) \<Rightarrow> processDownload_catch e s' downloadId err
      | (Inr u, s', tr) \<Rightarrow> s')"

text \<open>
  \<open>createDownload\<close>, up to its \<open>return status\<close>. \<open>uuid\<close> is what \<open>randomUUID()\<close>
  returns. The function returns the object it has stored in the table, which the table
  holds under \<open>downloadId\<close>: the result is that key, and the fields of the returned
  object are those of the table's entry. Calling \<open>processDownload\<close> runs its first
  statements before \<open>createDownload\<close> goes on to \<open>return\<close>.
\<close>

definition createDownload ::
  "env \<Rightarrow> engine \<Rightarrow> DownloadService \<Rightarrow> string \<Rightarrow> DownloadRequest
     \<Rightarrow> api_error + string \<times> DownloadService" where
  "createDownload e g s uuid request =
     (let downloadId = uuid;
          custom = (or_else (req_downloadPath request) [] \<noteq> []);
          downloadPath' = (if custom then path_resolve e (the (req_downloadPath request))
                          else downloadDir s)
      in case (if custom then fs_mkdir e downloadPath' else None) of
           Some errorMessage \<Rightarrow> Inl (Error (''Invalid download path: '' @ errorMessage))
         | None \<Rightarrow>
             let status0 = \<lparr>
                   id' = downloadId,
                   sourceId = req_sourceId request,
                   mangaId = req_mangaId request,
                   chapterIds = req_chapterIds request,
                   status = Queued,
                   progress = 0,
                   format = (case req_format request of None \<Rightarrow> Cbz | Some f \<Rightarrow> f),
                   downloadPath = (if custom then Some downloadPath' else None),
                   createdAt = toISOString e (ticks s),
                   updatedAt = toISOString e (Suc (ticks s)),
                   mangaTitle = None, currentChapter = None, completedAt = None,
                   error = None, fileUrl = None \<rparr>;
                 s1 = s \<lparr> downloads := (downloads s)(downloadId \<mapsto> status0),
                          ticks := ticks s + 2 \<rparr>;
                 started = processDownload_start e g s1 downloadId request
             in Inr (downloadId, snd started))"

section \<open>The page pool (FetchProviderPuppeteer.ts)\<close>

text \<open>
  The provider's \<open>browserPool\<close> holds the idle pages, named by the order of their
  creation, and \<open>maxBrowsers\<close> is \<open>config.puppeteer.maxBrowsers\<close>. The pages handed
  out to callers and returned by none yet are kept in \<open>checked_out\<close>, and the closed
  ones in \<open>closed\<close>, to count them; the code keeps neither.
\<close>

record FetchProviderPuppeteer =
  browserPool :: "nat list"
  maxBrowsers :: int
  browser_connected :: bool
  pages_created :: nat
  checked_out :: "nat set"
  closed :: "nat set"

datatype acquired = Got nat | Retry | LaunchFailed

text \<open>
  One attempt of \<open>getPage\<close>: \<open>Retry\<close> is the branch that sleeps a second and calls
  \<open>getPage\<close> again. \<open>launch_ok\<close> tells whether \<open>puppeteer.launch\<close> succeeds when
  no browser is connected.
\<close>

definition getPage :: "bool \<Rightarrow> FetchProviderPuppeteer \<Rightarrow> acquired \<times> FetchProviderPuppeteer" where
  "getPage launch_ok s =
     (if browserPool s \<noteq> [] then
        (Got (last (browserPool s)),
         s \<lparr> browserPool := butlast (browserPool s),
             checked_out := insert (last (browserPool s)) (checked_out s) \<rparr>)
      else if int (length (browserPool s)) < maxBrowsers s then
        (if browser_connected s \<or> launch_ok then
           (Got (pages_created s),
            s \<lparr> browser_connected := True,
                pages_created := Suc (pages_created s),
                checked_out := insert (pages_created s) (checked_out s) \<rparr>)
         else (LaunchFailed, s))
      else (Retry, s))"

text \<open>\<open>releasePage\<close>; \<open>reset_ok\<close> tells whether clearing the page's storage succeeds.\<close>

definition releasePage :: "bool \<Rightarrow> nat \<Rightarrow> FetchProviderPuppeteer \<Rightarrow> FetchProviderPuppeteer" where
  "releasePage reset_ok page s =
     (if reset_ok \<and> int (length (browserPool s)) < maxBrowsers s then
        s \<lparr> browserPool := browserPool s @ [page], checked_out := checked_out s - {page} \<rparr>
      else
        s \<lparr> checked_out := checked_out s - {page}, closed := insert page (closed s) \<rparr>)"

text \<open>The live pages outstanding: checked out, or idle in the pool.\<close>

definition outstanding :: "FetchProviderPuppeteer \<Rightarrow> nat" where
  "outstanding s = card (checked_out s) + length (browserPool s)"

section \<open>Header sanitization (FetchProviderPuppeteer.ts)\<close>

definition is_crlf :: "char \<Rightarrow> bool" where
  "is_crlf c \<longleftrightarrow> c = CHR 0x0D \<or> c = CHR 0x0A"

text \<open>\<open>value.replace(/[\r\n]+/g, ', ')\<close>: every maximal run becomes a comma and a space.\<close>

function replace_crlf :: "string \<Rightarrow> string" where
  "replace_crlf [] = []"
| "replace_crlf (c # cs) =
     (if is_crlf c then '', '' @ replace_crlf (dropWhile is_crlf cs) else c # replace_crlf cs)"
  by pat_completeness auto
termination
  by (relation "measure length") (auto simp: length_dropWhile_le less_Suc_eq_le)

text \<open>\<open>/[\x00-\x1F\x7F]/.test(v)\<close>.\<close>

definition has_control :: "string \<Rightarrow> bool" where
  "has_control v \<longleftrightarrow> (\<exists>c \<in> set v. (of_char c :: nat) \<le> 31 \<or> (of_char c :: nat) = 127)"

text \<open>
  \<open>obj[key] = v\<close> on an object created by \<open>{}\<close>: it adds or overwrites a property,
  except for the key \<open>__proto__\<close>, whose setter ignores a string.
\<close>

definition set_property :: "(string \<rightharpoonup> string) \<Rightarrow> string \<Rightarrow> string \<Rightarrow> (string \<rightharpoonup> string)" where
  "set_property obj key v = (if key = ''__proto__'' then obj else obj(key \<mapsto> v))"

fun sanitize_entries :: "(string \<times> string) list \<Rightarrow> (string \<rightharpoonup> string) \<Rightarrow> (string \<rightharpoonup> string)" where
  "sanitize_entries [] sanitizedHeaders = sanitizedHeaders"
| "sanitize_entries ((key, v) # rest) sanitizedHeaders =
     (let sanitizedValue = replace_crlf v
      in if \<not> has_control sanitizedValue
         then sanitize_entries rest (set_property sanitizedHeaders key sanitizedValue)
         else sanitize_entries rest sanitizedHeaders)"

definition sanitizeHeaders :: "(string \<times> string) list \<Rightarrow> (string \<rightharpoonup> string)" where
  "sanitizeHeaders entries = sanitize_entries entries Map.empty"


section \<open>Waiting for a challenge (FetchProviderPuppeteer.ts)\<close>

text \<open>
  The page as \<open>waitForCloudflare\<close> sees it, with an explicit clock in milliseconds.
  \<open>evaluate_info t\<close> is the first \<open>page.evaluate\<close> of an iteration, issued at time
  \<open>t\<close>: the time it takes, and the title with the challenge signal, or the value it
  raises. A raised value is \<open>null\<close> or \<open>undefined\<close> (\<open>Nullish\<close>), or an object
  with its \<open>message\<close>, a string or nothing (\<open>ErrorObject\<close>).
  \<open>evaluate_title t\<close> is the re-check after a navigation: whether a challenge title is
  still shown, or an error. A \<open>setTimeout\<close> of \<open>n\<close> milliseconds advances the clock
  by \<open>n\<close>.
\<close>

datatype thrown = Nullish | ErrorObject "string option"

datatype probe = Info string bool | Throws thrown

datatype recheck = Still bool | RecheckThrows

record page_env =
  evaluate_info :: "nat \<Rightarrow> nat \<times> probe"
  evaluate_title :: "nat \<Rightarrow> nat \<times> recheck"

text \<open>What the function logs, and the times at which it evaluates the signal.\<close>

datatype wait_log =
    Poll nat
  | PageTitle string
  | ChallengePassed
  | NavigatedDuringCheck
  | PassedAfterNavigation
  | ChallengeTimeout

text \<open>
  The call returns, or raises: the error it caught, thrown again, or the \<open>TypeError\<close>
  of reading \<open>message\<close> from \<open>null\<close> or \<open>undefined\<close> in the handler.
\<close>

datatype wait_result = Returned | Raised "string option" | TypeError

text \<open>\<open>error.message?.includes('Execution context was destroyed')\<close> on an object.\<close>

definition context_destroyed :: "string option \<Rightarrow> bool" where
  "context_destroyed m =
     (case m of None \<Rightarrow> False | Some msg \<Rightarrow> sublist ''Execution context was destroyed'' msg)"

text \<open>
  The \<open>while\<close> loop, entered at time \<open>now\<close>: the result, the time of the return and
  the log.
\<close>

function waitLoop ::
  "page_env \<Rightarrow> nat \<Rightarrow> nat \<Rightarrow> nat \<Rightarrow> string \<Rightarrow> wait_result \<times> nat \<times> wait_log list" where
  "waitLoop p startTime maxWaitTime now lastTitle =
     (if now - startTime < maxWaitTime then
        (case evaluate_info p now of
           (d, Info title hasChallenge) \<Rightarrow>
             let titleLog = (if title \<noteq> lastTitle then [PageTitle title] else [])
             in if \<not> hasChallenge then
                  (Returned, now + d, Poll now # titleLog @ [ChallengePassed])
                else
                  (case waitLoop p startTime maxWaitTime (now + d + 500) title of
                     (r, t, lg) \<Rightarrow> (r, t, Poll now # titleLog @ lg))
         | (d, Throws Nullish) \<Rightarrow> (TypeError, now + d, [Poll now])
         | (d, Throws (ErrorObject m)) \<Rightarrow>
             if context_destroyed m then
               (case evaluate_title p (now + d + 1000) of
                  (d2, again) \<Rightarrow>
                    if again = Still False then
                      (Returned, now + d + 1000 + d2,
                       [Poll now, NavigatedDuringCheck, PassedAfterNavigation])
                    else
                      (case waitLoop p startTime maxWaitTime (now + d + 1000 + d2 + 500) lastTitle of
                         (r, t, lg) \<Rightarrow> (r, t, Poll now # NavigatedDuringCheck # lg)))
             else (Raised m, now + d, [Poll now]))
      else (Returned, now, [ChallengeTimeout]))"
  by pat_completeness auto
termination
  by (relation "measure (\<lambda>(p, startTime, maxWaitTime, now, lastTitle). startTime + maxWaitTime - now)")
     auto

declare waitLoop.simps [simp del]

text \<open>\<open>waitForCloudflare(page, maxWaitTime)\<close>, called at time \<open>startTime\<close>.\<close>

definition waitForCloudflare :: "page_env \<Rightarrow> nat \<Rightarrow> nat \<Rightarrow> wait_result \<times> nat \<times> wait_log list" where
  "waitForCloudflare p maxWaitTime startTime = waitLoop p startTime maxWaitTime startTime []"

text \<open>The times of the evaluations in a log.\<close>

fun polls :: "wait_log list \<Rightarrow> nat list" where
  "polls [] = []"
| "polls (Poll t # lg) = t # polls lg"
| "polls (x # lg) = polls lg"

section \<open>Example inputs\<close>

text \<open>Concrete environments, tables and requests on which the theorems are instantiated.\<close>

definition ex_env :: env where
  "ex_env = \<lparr> SanitizeFileName = (\<lambda>t. t), path_join = join ''/'', path_resolve = (\<lambda>p. p),
     path_dirname = (\<lambda>p. p), fs_mkdir = (\<lambda>p. None), fs_access = (\<lambda>p. True),
     fs_readdir = (\<lambda>p. Inr [''chapter_1.cbz'']), toISOString = (\<lambda>k. replicate k (CHR ''t'')),
     error_message = (\<lambda>err. ''error'') \<rparr>"

definition ex_status :: "string \<Rightarrow> download_state \<Rightarrow> DownloadStatus" where
  "ex_status i st = \<lparr> id' = i, sourceId = ''mangahere'', mangaId = ''berserk'',
     chapterIds = [''c001''], status = st, progress = 0, format = Cbz, downloadPath = None,
     createdAt = [], updatedAt = [], mangaTitle = None, currentChapter = None,
     completedAt = None, error = None, fileUrl = None \<rparr>"

definition ex_service :: DownloadService where
  "ex_service = \<lparr> downloads = [''q'' \<mapsto> ex_status ''q'' Queued, ''c'' \<mapsto> ex_status ''c'' Completed],
     downloadDir = ''downloads'', ticks = 0 \<rparr>"


definition ex_engine :: engine where
  "ex_engine = \<lparr> WebsitePlugins = [], SaveTemporary = (\<lambda>b. Inr b),
     RemoveTemporary = (\<lambda>ks. None), Export = (\<lambda>f rm p t m. None) \<rparr>"

definition ex_request :: DownloadRequest where
  "ex_request = \<lparr> req_sourceId = ''mangahere'', req_mangaId = ''berserk'',
     req_chapterIds = [''c001''], req_format = None, req_downloadPath = None \<rparr>"

definition ex_empty :: DownloadService where
  "ex_empty = \<lparr> downloads = Map.empty, downloadDir = ''downloads'', ticks = 0 \<rparr>"


definition ex_pool :: FetchProviderPuppeteer where
  "ex_pool = \<lparr> browserPool = [], maxBrowsers = 1, browser_connected = False,
     pages_created = 0, checked_out = {}, closed = {} \<rparr>"

definition ex_chapter :: "string \<Rightarrow> string \<Rightarrow> Page list \<Rightarrow> Chapter" where
  "ex_chapter i t ps = \<lparr> ch_Identifier = i, ch_Title = t, ch_Update = Inr ps \<rparr>"

definition ex_manga :: Manga where
  "ex_manga = \<lparr> mg_Identifier = ''berserk'', mg_Title = ''Berserk'',
     mg_Entries = Inr [ex_chapter ''a'' ''Chapter 1'' [], ex_chapter ''b'' ''Chapter 2'' []] \<rparr>"

definition ex_plugin :: Plugin where
  "ex_plugin = \<lparr> pl_Identifier = ''mangahere'', pl_Entries = Inr [ex_manga] \<rparr>"

definition ex_catalog :: engine where
  "ex_catalog = ex_engine \<lparr> WebsitePlugins := [ex_plugin] \<rparr>"

definition ex_request_xy :: DownloadRequest where
  "ex_request_xy = ex_request \<lparr> req_chapterIds := [''x'', ''y''] \<rparr>"

definition ex_headers :: "(string \<times> string) list" where
  "ex_headers =
     [(''server-timing'', [CHR ''a'', CHR 0x0D, CHR 0x0A, CHR ''b'']),
      (''x-tab'', [CHR ''a'', CHR 0x09, CHR ''b'']),
      (''content-type'', ''text/html'')]"

text \<open>The chapter an event belongs to, and the exports of a trace.\<close>

fun event_chapter :: "event \<Rightarrow> nat" where
  "event_chapter (PageFetch c p) = c"
| "event_chapter (ExportCall c outputPath) = c"

fun exported :: "trace \<Rightarrow> (nat \<times> string) list" where
  "exported [] = []"
| "exported ((PageFetch c p, s) # tr) = exported tr"
| "exported ((ExportCall c outputPath, s) # tr) = (c, outputPath) # exported tr"

text \<open>
  The formula of the specification for the progress while page \<open>pageIndex\<close> of
  chapter \<open>chapterIndex\<close> is fetched,
  \<open>(chapterIndex + pageIndex/pageCount) / totalChapters * 90\<close> rounded down: once
  over the reals, once evaluated in JavaScript numbers.
\<close>

definition exact_progress :: "nat \<Rightarrow> nat \<Rightarrow> nat \<Rightarrow> nat \<Rightarrow> int" where
  "exact_progress chapterIndex pageIndex pageCount totalChapters =
     \<lfloor>(real chapterIndex + real pageIndex / real pageCount) / real totalChapters * 90\<rfloor>"

definition js_progress :: "nat \<Rightarrow> nat \<Rightarrow> nat \<Rightarrow> nat \<Rightarrow> int" where
  "js_progress chapterIndex pageIndex pageCount totalChapters =
     Math_floor (js_mul (js_div (js_add (real chapterIndex)
                                        (js_div (real pageIndex) (real pageCount)))
                                (real totalChapters)) 90)"

definition ex_page :: Page where
  "ex_page = \<lparr> pg_Fetch = Inr ''image'' \<rparr>"

definition ex_chapters_skip :: "Chapter list" where
  "ex_chapters_skip = [ex_chapter ''a'' ''Chapter 1'' [], ex_chapter ''b'' ''Chapter 2'' [ex_page]]"

definition ex_chapters_ten :: "Chapter list" where
  "ex_chapters_ten =
     [ex_chapter ''a'' ''Chapter 1''
        [ex_page, ex_page, ex_page, ex_page, ex_page, ex_page, ex_page, ex_page, ex_page, ex_page]]"

text \<open>Two pages: one that keeps its challenge, and one that navigates away from it.\<close>

definition ex_challenged :: page_env where
  "ex_challenged = \<lparr> evaluate_info = (\<lambda>t. (0, Info ''Just a moment...'' True)),
     evaluate_title = (\<lambda>t. (0, Still True)) \<rparr>"

definition ex_navigated :: page_env where
  "ex_navigated = \<lparr>
     evaluate_info = (\<lambda>t. (10, Throws (ErrorObject (Some (''Execution context was destroyed''
                                   @ '', most likely because of a navigation.''))))),
     evaluate_title = (\<lambda>t. (5, Still False)) \<rparr>"

section \<open>Retrieving the file of a download\<close>

text \<open>
  C6. \<open>getDownloadFilePath\<close> returns a path only for a download whose status is
  \<open>completed\<close>; for a download in any other state it raises the bad request
  \<open>Download is not completed yet\<close>; for an identity the table does not hold it
  raises the not-found error of \<open>getDownload\<close>.
\<close>

theorem getDownloadFilePath_only_completed:
  "(getDownloadFilePath e s i = Inr p \<longrightarrow> (\<exists>d. downloads s i = Some d \<and> status d = Completed)) \<and>
   (\<forall>d. downloads s i = Some d \<and> status d \<noteq> Completed \<longrightarrow>
      getDownloadFilePath e s i = Inl (BadRequest ''Download is not completed yet'')) \<and>
   (downloads s i = None \<longrightarrow> getDownloadFilePath e s i = Inl (DownloadNotFound i))"
  by (auto simp: getDownloadFilePath_def getDownload_def split: option.splits if_splits)

theorem getDownloadFilePath_only_completed_witness:
  "getDownloadFilePath ex_env ex_service ''q'' = Inl (BadRequest ''Download is not completed yet'') \<and>
   getDownloadFilePath ex_env ex_service ''zz'' = Inl (DownloadNotFound ''zz'') \<and>
   getDownloadFilePath ex_env ex_service ''c'' = Inr ''downloads/berserk/chapter_1.cbz'' \<and>
   (\<exists>d. downloads ex_service ''c'' = Some d \<and> status d = Completed)"
proof -
  have q: "downloads ex_service ''q'' = Some (ex_status ''q'' Queued) \<and> status (ex_status ''q'' Queued) \<noteq> Completed"
    by (simp add: ex_service_def ex_status_def)
  have z: "downloads ex_service ''zz'' = None"
    by (simp add: ex_service_def)
  have c: "getDownloadFilePath ex_env ex_service ''c'' = Inr ''downloads/berserk/chapter_1.cbz''"
    by (simp add: getDownloadFilePath_def getDownload_def ex_service_def ex_status_def ex_env_def or_else_def)
  from getDownloadFilePath_only_completed [of ex_env ex_service "''q''"] q
  have 1: "getDownloadFilePath ex_env ex_service ''q'' = Inl (BadRequest ''Download is not completed yet'')"
    by blast
  from getDownloadFilePath_only_completed [of ex_env ex_service "''zz''"] z
  have 2: "getDownloadFilePath ex_env ex_service ''zz'' = Inl (DownloadNotFound ''zz'')"
    by blast
  from getDownloadFilePath_only_completed [of ex_env ex_service "''c''" "''downloads/berserk/chapter_1.cbz''"] c
  have 3: "\<exists>d. downloads ex_service ''c'' = Some d \<and> status d = Completed"
    by blast
  from 1 2 3 c show ?thesis by blast
qed


section \<open>Status updates\<close>

lemma assign_unnamed:
  "(p_id u = None \<longrightarrow> id' (assign d u) = id' d) \<and>
   (p_sourceId u = None \<longrightarrow> sourceId (assign d u) = sourceId d) \<and>
   (p_mangaId u = None \<longrightarrow> mangaId (assign d u) = mangaId d) \<and>
   (p_chapterIds u = None \<longrightarrow> chapterIds (assign d u) = chapterIds d) \<and>
   (p_status u = None \<longrightarrow> status (assign d u) = status d) \<and>
   (p_progress u = None \<longrightarrow> progress (assign d u) = progress d) \<and>
   (p_format u = None \<longrightarrow> format (assign d u) = format d) \<and>
   (p_downloadPath u = None \<longrightarrow> downloadPath (assign d u) = downloadPath d) \<and>
   (p_createdAt u = None \<longrightarrow> createdAt (assign d u) = createdAt d) \<and>
   (p_mangaTitle u = None \<longrightarrow> mangaTitle (assign d u) = mangaTitle d) \<and>
   (p_currentChapter u = None \<longrightarrow> currentChapter (assign d u) = currentChapter d) \<and>
   (p_completedAt u = None \<longrightarrow> completedAt (assign d u) = completedAt d) \<and>
   (p_error u = None \<longrightarrow> error (assign d u) = error d) \<and>
   (p_fileUrl u = None \<longrightarrow> fileUrl (assign d u) = fileUrl d)"
  by (simp add: assign_def)

lemma status_updates_unnamed:
  "u \<in> status_updates \<Longrightarrow>
     p_id u = None \<and> p_sourceId u = None \<and> p_mangaId u = None \<and> p_chapterIds u = None \<and>
     p_format u = None \<and> p_createdAt u = None"
  by (auto simp: status_updates_def update_downloading_def update_failed_def update_processing_def
        update_completed_def update_chapter_def update_page_def no_update_def)

text \<open>
  C10. \<open>updateDownloadStatus\<close> on an identity the table does not hold returns the
  service unchanged. On an identity it holds, the stored record gets a fresh
  \<open>updatedAt\<close>, every field the update does not name keeps its value, and the other
  records and the directory are untouched. The updates the service issues name none of
  \<open>id\<close>, \<open>sourceId\<close>, \<open>mangaId\<close>, \<open>chapterIds\<close>, \<open>format\<close> and
  \<open>createdAt\<close>, which therefore never change.
\<close>

theorem updateDownloadStatus_frame:
  "(downloads s i = None \<longrightarrow> updateDownloadStatus e s i u = s) \<and>
   (\<forall>d. downloads s i = Some d \<longrightarrow>
      (\<exists>d'. downloads (updateDownloadStatus e s i u) i = Some d' \<and>
         updatedAt d' = toISOString e (ticks s) \<and>
         (p_id u = None \<longrightarrow> id' d' = id' d) \<and>
         (p_sourceId u = None \<longrightarrow> sourceId d' = sourceId d) \<and>
         (p_mangaId u = None \<longrightarrow> mangaId d' = mangaId d) \<and>
         (p_chapterIds u = None \<longrightarrow> chapterIds d' = chapterIds d) \<and>
         (p_status u = None \<longrightarrow> status d' = status d) \<and>
         (p_progress u = None \<longrightarrow> progress d' = progress d) \<and>
         (p_format u = None \<longrightarrow> format d' = format d) \<and>
         (p_downloadPath u = None \<longrightarrow> downloadPath d' = downloadPath d) \<and>
         (p_createdAt u = None \<longrightarrow> createdAt d' = createdAt d) \<and>
         (p_mangaTitle u = None \<longrightarrow> mangaTitle d' = mangaTitle d) \<and>
         (p_currentChapter u = None \<longrightarrow> currentChapter d' = currentChapter d) \<and>
         (p_completedAt u = None \<longrightarrow> completedAt d' = completedAt d) \<and>
         (p_error u = None \<longrightarrow> error d' = error d) \<and>
         (p_fileUrl u = None \<longrightarrow> fileUrl d' = fileUrl d) \<and>
         (u \<in> status_updates \<longrightarrow>
            id' d' = id' d \<and> sourceId d' = sourceId d \<and> mangaId d' = mangaId d \<and>
            chapterIds d' = chapterIds d \<and> format d' = format d \<and> createdAt d' = createdAt d))) \<and>
   (\<forall>j. j \<noteq> i \<longrightarrow> downloads (updateDownloadStatus e s i u) j = downloads s j) \<and>
   downloadDir (updateDownloadStatus e s i u) = downloadDir s"
proof (cases "downloads s i")
  case None
  then show ?thesis by (simp add: updateDownloadStatus_def)
next
  case (Some d)
  have imm: "u \<in> status_updates \<longrightarrow>
      id' (assign d u) = id' d \<and> sourceId (assign d u) = sourceId d \<and> mangaId (assign d u) = mangaId d \<and>
      chapterIds (assign d u) = chapterIds d \<and> format (assign d u) = format d \<and>
      createdAt (assign d u) = createdAt d"
    using status_updates_unnamed [of u] assign_unnamed [of u d] by blast
  from Some imm assign_unnamed [of u d] show ?thesis
    by (simp add: updateDownloadStatus_def)
qed

theorem updateDownloadStatus_frame_witness:
  "updateDownloadStatus ex_env ex_service ''zz'' update_downloading = ex_service \<and>
   (\<exists>d'. downloads (updateDownloadStatus ex_env ex_service ''q'' update_downloading) ''q'' = Some d' \<and>
      updatedAt d' = toISOString ex_env 0 \<and> id' d' = ''q'' \<and> sourceId d' = ''mangahere'' \<and>
      mangaId d' = ''berserk'' \<and> chapterIds d' = [''c001''] \<and> format d' = Cbz \<and>
      createdAt d' = [] \<and> progress d' = 0) \<and>
   downloads (updateDownloadStatus ex_env ex_service ''q'' update_downloading) ''c''
     = downloads ex_service ''c''"
proof -
  have z: "downloads ex_service ''zz'' = None"
    by (simp add: ex_service_def)
  have q: "downloads ex_service ''q'' = Some (ex_status ''q'' Queued)"
    by (simp add: ex_service_def)
  have u: "update_downloading \<in> status_updates" "p_progress update_downloading = None"
    "p_id update_downloading = None" "p_sourceId update_downloading = None"
    "p_mangaId update_downloading = None" "p_chapterIds update_downloading = None"
    "p_format update_downloading = None" "p_createdAt update_downloading = None"
    by (simp_all add: status_updates_def update_downloading_def no_update_def)
  have t: "ticks ex_service = 0"
    by (simp add: ex_service_def)
  note f = updateDownloadStatus_frame [where s = ex_service and e = ex_env and u = update_downloading]
  have 1: "updateDownloadStatus ex_env ex_service ''zz'' update_downloading = ex_service"
    using f [where i = "''zz''"] z by (simp only: simp_thms)
  have 2: "\<exists>d'. downloads (updateDownloadStatus ex_env ex_service ''q'' update_downloading) ''q'' = Some d' \<and>
      updatedAt d' = toISOString ex_env 0 \<and> id' d' = ''q'' \<and> sourceId d' = ''mangahere'' \<and>
      mangaId d' = ''berserk'' \<and> chapterIds d' = [''c001''] \<and> format d' = Cbz \<and>
      createdAt d' = [] \<and> progress d' = 0"
    using f [where i = "''q''"] by (simp add: q u t ex_status_def) blast
  have 3: "downloads (updateDownloadStatus ex_env ex_service ''q'' update_downloading) ''c''
     = downloads ex_service ''c''"
    using f [where i = "''q''"] by simp
  from 1 2 3 show ?thesis by (intro conjI)
qed


section \<open>Creating a download\<close>

text \<open>
  Whenever \<open>createDownload\<close> returns, the record it returns is already in state
  \<open>downloading\<close>: the first statement of \<open>processDownload\<close> has run inside the
  call and has updated the object the table and the caller share.
\<close>

lemma createDownload_returns_downloading:
  assumes "createDownload e g s uuid request = Inr (ref, s')"
  shows "map_option status (downloads s' ref) = Some Downloading"
  using assms
  by (auto simp: createDownload_def processDownload_start_def updateDownloadStatus_def Let_def
        assign_def update_downloading_def no_update_def
        split: option.splits if_splits)


text \<open>
  C2. On an empty table and a request without a custom path, the status of the record
  \<open>createDownload\<close> returns is \<open>downloading\<close> when the call returns, not
  \<open>queued\<close>.
\<close>

theorem createDownload_returned_status:
  "(case createDownload ex_env ex_engine ex_empty ''id-1'' ex_request of
      Inl err \<Rightarrow> None
    | Inr (ref, s') \<Rightarrow> map_option status (downloads s' ref)) = Some Downloading"
  by (simp add: createDownload_def processDownload_start_def updateDownloadStatus_def Let_def
        assign_def update_downloading_def no_update_def ex_env_def ex_engine_def ex_empty_def
        ex_request_def or_else_def)


section \<open>The page pool\<close>

text \<open>
  C1. With \<open>maxBrowsers = 1\<close> and an empty pool, two calls of \<open>getPage\<close> with no
  release in between both create a page: two live pages are outstanding under a cap of
  one. The test \<open>browserPool.length < maxBrowsers\<close> counts the idle pages only, and
  is reached only when there is none.
\<close>

theorem getPage_exceeds_cap:
  "(let (r1, s1) = getPage True ex_pool; (r2, s2) = getPage True s1
    in (r1, r2, outstanding s2, maxBrowsers s2)) = (Got 0, Got 1, 2, 1)"
  by (simp add: getPage_def ex_pool_def outstanding_def Let_def)


text \<open>The idle pages alone stay within the cap.\<close>

lemma releasePage_pool_bounded:
  "int (length (browserPool s)) \<le> max 0 (maxBrowsers s)
   \<Longrightarrow> int (length (browserPool (releasePage ok p s))) \<le> max 0 (maxBrowsers (releasePage ok p s))"
  by (auto simp: releasePage_def)

lemma getPage_pool_bounded:
  "int (length (browserPool s)) \<le> max 0 (maxBrowsers s)
   \<Longrightarrow> int (length (browserPool (snd (getPage ok s)))) \<le> max 0 (maxBrowsers (snd (getPage ok s)))"
  by (auto simp: getPage_def)

section \<open>Requests that match no chapter\<close>

lemma sublist_join:
  "x \<in> set xs \<Longrightarrow> sublist x (join sep xs)"
proof (induction sep xs rule: join.induct)
  case (1 sep)
  then show ?case by simp
next
  case (2 sep y)
  then show ?case by simp
next
  case (3 sep y z zs)
  show ?case
  proof (cases "x = y")
    case True
    then show ?thesis by (simp add: sublist_append_rightI)
  next
    case False
    with 3 have "sublist x (join sep (z # zs))" by simp
    then have "sublist x ((y @ sep) @ join sep (z # zs))"
      by (rule sublist_order.order_trans [OF _ sublist_append_leftI])
    then show ?thesis by simp
  qed
qed

lemma updateDownloadStatus_present:
  "downloads s i = Some d \<Longrightarrow>
     downloads (updateDownloadStatus e s i u) i
       = Some ((assign d u) \<lparr> updatedAt := toISOString e (ticks s) \<rparr>)"
  by (simp add: updateDownloadStatus_def)

lemma processDownload_catch_failed:
  "downloads s i = Some d \<Longrightarrow>
     \<exists>d'. downloads (processDownload_catch e s i err) i = Some d' \<and>
          status d' = Failed \<and> error d' = Some (message e err)"
  by (simp add: processDownload_catch_def updateDownloadStatus_present assign_def update_failed_def
        no_update_def)

text \<open>
  C5. When the plugin and the manga are found, the chapter catalog is resolved and no
  requested identifier is the identifier of a chapter of the catalog,
  \<open>processDownload\<close> fails with the error whose message holds the identifier of
  every chapter of the catalog, joined by a comma and a space; the rejection handler
  then moves the download, if the table still holds it, to \<open>failed\<close> with that
  message, whatever the table has become and in particular when the download runs
  undisturbed.
\<close>

theorem processDownload_no_valid_chapters:
  assumes "find (\<lambda>p. pl_Identifier p = req_sourceId request) (WebsitePlugins g) = Some plugin"
    and "pl_Entries plugin = Inr mangas"
    and "find (\<lambda>m. mg_Identifier m = req_mangaId request) mangas = Some manga"
    and "mg_Entries manga = Inr chapters"
    and "\<forall>c \<in> set chapters. ch_Identifier c \<notin> set (req_chapterIds request)"
  shows "fst (processDownload e g s i request path) = Inl (no_valid_chapters chapters request) \<and>
         (\<forall>c \<in> set chapters.
             sublist (ch_Identifier c) (message e (no_valid_chapters chapters request))) \<and>
         sublist (join '', '' (map ch_Identifier chapters))
                 (message e (no_valid_chapters chapters request)) \<and>
         (\<forall>d. downloads s i = Some d \<longrightarrow>
            (\<exists>d'. downloads (runDownload e g s i request path) i = Some d' \<and>
                  status d' = Failed \<and>
                  error d' = Some (message e (no_valid_chapters chapters request)))) \<and>
         (\<forall>s' d. downloads s' i = Some d \<longrightarrow>
            (\<exists>d'. downloads (processDownload_catch e s' i (no_valid_chapters chapters request)) i = Some d' \<and>
                  status d' = Failed \<and>
                  error d' = Some (message e (no_valid_chapters chapters request))))"
proof -
  let ?err = "no_valid_chapters chapters request"
  let ?s1 = "updateDownloadStatus e s i update_downloading"
  from assms(5) have none: "filter (\<lambda>c. ch_Identifier c \<in> set (req_chapterIds request)) chapters = []"
    by (simp add: filter_empty_conv)
  from assms(1-4) none have run: "processDownload e g s i request path = (Inl ?err, ?s1, [])"
    by (simp add: processDownload_def processDownload_start_def Let_def)
  have msg: "message e ?err =
      ''No valid chapters found to download. Available chapter IDs: ''
        @ join '', '' (map ch_Identifier chapters)
        @ ''. Requested: '' @ join '', '' (req_chapterIds request)"
    by (simp add: message_def no_valid_chapters_def)
  have all: "sublist (join '', '' (map ch_Identifier chapters)) (message e ?err)"
    unfolding msg sublist_def by blast
  have each: "\<forall>c \<in> set chapters. sublist (ch_Identifier c) (message e ?err)"
  proof
    fix c assume "c \<in> set chapters"
    then have "sublist (ch_Identifier c) (join '', '' (map ch_Identifier chapters))"
      by (intro sublist_join) simp
    then show "sublist (ch_Identifier c) (message e ?err)"
      using all by (rule sublist_order.order_trans)
  qed
  have failed: "\<forall>d. downloads s i = Some d \<longrightarrow>
            (\<exists>d'. downloads (runDownload e g s i request path) i = Some d' \<and>
                  status d' = Failed \<and> error d' = Some (message e ?err))"
  proof (intro allI impI)
    fix d assume "downloads s i = Some d"
    then have "\<exists>d1. downloads ?s1 i = Some d1"
      by (simp add: updateDownloadStatus_present)
    then obtain d1 where "downloads ?s1 i = Some d1" ..
    from processDownload_catch_failed [OF this, of e ?err]
    show "\<exists>d'. downloads (runDownload e g s i request path) i = Some d' \<and>
                  status d' = Failed \<and> error d' = Some (message e ?err)"
      by (simp add: runDownload_def run)
  qed
  from run each all failed processDownload_catch_failed show ?thesis
    by simp
qed

lemma ex_message:
  "message ex_env (no_valid_chapters [ex_chapter ''a'' ''Chapter 1'' [], ex_chapter ''b'' ''Chapter 2'' []] ex_request_xy)
     = ''No valid chapters found to download. Available chapter IDs: a, b. Requested: x, y''"
  by (simp add: message_def no_valid_chapters_def ex_chapter_def ex_request_xy_def ex_request_def)

theorem processDownload_no_valid_chapters_witness:
  "fst (processDownload ex_env ex_catalog ex_service ''q'' ex_request_xy ''downloads'')
     = Inl (Error ''No valid chapters found to download. Available chapter IDs: a, b. Requested: x, y'') \<and>
   sublist ''a'' ''No valid chapters found to download. Available chapter IDs: a, b. Requested: x, y'' \<and>
   sublist ''b'' ''No valid chapters found to download. Available chapter IDs: a, b. Requested: x, y'' \<and>
   (\<exists>d'. downloads (runDownload ex_env ex_catalog ex_service ''q'' ex_request_xy ''downloads'') ''q'' = Some d' \<and>
       status d' = Failed \<and>
       error d' = Some ''No valid chapters found to download. Available chapter IDs: a, b. Requested: x, y'')"
proof -
  let ?chapters = "[ex_chapter ''a'' ''Chapter 1'' [], ex_chapter ''b'' ''Chapter 2'' []]"
  have 1: "find (\<lambda>p. pl_Identifier p = req_sourceId ex_request_xy) (WebsitePlugins ex_catalog) = Some ex_plugin"
    by (simp add: ex_catalog_def ex_plugin_def ex_request_xy_def ex_request_def)
  have 2: "pl_Entries ex_plugin = Inr [ex_manga]"
    by (simp add: ex_plugin_def)
  have 3: "find (\<lambda>m. mg_Identifier m = req_mangaId ex_request_xy) [ex_manga] = Some ex_manga"
    by (simp add: ex_manga_def ex_request_xy_def ex_request_def)
  have 4: "mg_Entries ex_manga = Inr ?chapters"
    by (simp add: ex_manga_def)
  have 5: "\<forall>c \<in> set ?chapters. ch_Identifier c \<notin> set (req_chapterIds ex_request_xy)"
    by (simp add: ex_chapter_def ex_request_xy_def)
  have q: "downloads ex_service ''q'' = Some (ex_status ''q'' Queued)"
    by (simp add: ex_service_def)
  have e: "no_valid_chapters ?chapters ex_request_xy
     = Error ''No valid chapters found to download. Available chapter IDs: a, b. Requested: x, y''"
    by (simp add: no_valid_chapters_def ex_chapter_def ex_request_xy_def ex_request_def)
  have ids: "ch_Identifier (ex_chapter ''a'' ''Chapter 1'' []) = ''a''"
    "ch_Identifier (ex_chapter ''b'' ''Chapter 2'' []) = ''b''"
    by (simp_all add: ex_chapter_def)
  from processDownload_no_valid_chapters [OF 1 2 3 4 5, of ex_env ex_service "''q''" "''downloads''"] q
  show ?thesis
    by (simp add: e ids message_def)
qed

section \<open>Header sanitization\<close>

lemma replace_crlf_no_crlf: "c \<in> set (replace_crlf v) \<Longrightarrow> \<not> is_crlf c"
  by (induction v rule: replace_crlf.induct) (auto simp: is_crlf_def split: if_splits)

lemma replace_crlf_id: "\<forall>c \<in> set v. \<not> is_crlf c \<Longrightarrow> replace_crlf v = v"
  by (induction v) auto

lemma replace_crlf_append:
  "a = [] \<or> \<not> is_crlf (last a) \<Longrightarrow> replace_crlf (a @ b) = replace_crlf a @ replace_crlf b"
proof (induction a rule: replace_crlf.induct)
  case 1
  then show ?case by simp
next
  case (2 c cs)
  show ?case
  proof (cases "is_crlf c")
    case False
    with 2 show ?thesis by (auto split: if_splits)
  next
    case True
    with "2.prems" have ne: "cs \<noteq> []" and l: "\<not> is_crlf (last cs)"
      by (auto split: if_splits)
    then have mem: "last cs \<in> set cs" by simp
    have d: "dropWhile is_crlf (cs @ b) = dropWhile is_crlf cs @ b"
      using mem l by (rule dropWhile_append1)
    have dne: "dropWhile is_crlf cs \<noteq> []"
      using mem l by (auto simp: dropWhile_eq_Nil_conv)
    have "last (dropWhile is_crlf cs) = last cs"
      using dne by (metis last_appendR takeWhile_dropWhile_id)
    with l have "dropWhile is_crlf cs = [] \<or> \<not> is_crlf (last (dropWhile is_crlf cs))"
      by simp
    with "2.IH"(1) [OF True] have "replace_crlf (dropWhile is_crlf cs @ b)
        = replace_crlf (dropWhile is_crlf cs) @ replace_crlf b"
      by simp
    with True d show ?thesis by simp
  qed
qed

lemma replace_crlf_run:
  assumes "r \<noteq> []" and "\<forall>c \<in> set r. is_crlf c" and "b = [] \<or> \<not> is_crlf (hd b)"
  shows "replace_crlf (r @ b) = '', '' @ replace_crlf b"
proof -
  from assms(1) obtain c cs where r: "r = c # cs" by (cases r) auto
  from assms(2) r have c: "is_crlf c" and cs: "\<forall>x \<in> set cs. is_crlf x" by auto
  from assms(3) have b: "dropWhile is_crlf b = b" by (cases b) auto
  from cs have "dropWhile is_crlf (cs @ b) = dropWhile is_crlf b"
    by (simp add: dropWhile_append2)
  with b c r show ?thesis by simp
qed

lemma sanitize_entries_inv:
  assumes "sanitize_entries hs acc k = Some v"
    and "\<And>v'. acc k = Some v' \<Longrightarrow> Q v'"
    and "\<And>v0. (k, v0) \<in> set hs \<Longrightarrow> \<not> has_control (replace_crlf v0) \<Longrightarrow> Q (replace_crlf v0)"
  shows "Q v"
  using assms
proof (induction hs acc rule: sanitize_entries.induct)
  case (1 acc)
  then show ?case by simp
next
  case (2 key v0 rest acc)
  show ?case
  proof (cases "has_control (replace_crlf v0)")
    case True
    with 2 show ?thesis by (simp add: Let_def)
  next
    case False
    with "2.prems"(1) have run: "sanitize_entries rest (set_property acc key (replace_crlf v0)) k = Some v"
      by (simp add: Let_def)
    show ?thesis
    proof (rule "2.IH"(1) [OF refl _ run])
      show "\<not> has_control (replace_crlf v0)" by (rule False)
    next
      fix v' assume "set_property acc key (replace_crlf v0) k = Some v'"
      then show "Q v'"
        using "2.prems"(2,3) False by (auto simp: set_property_def split: if_splits)
    next
      fix w assume "(k, w) \<in> set rest" "\<not> has_control (replace_crlf w)"
      then show "Q (replace_crlf w)" using "2.prems"(3) by simp
    qed
  qed
qed

lemma sanitize_entries_dropped:
  "acc k = None \<Longrightarrow> \<forall>v0. (k, v0) \<in> set hs \<longrightarrow> has_control (replace_crlf v0)
     \<Longrightarrow> sanitize_entries hs acc k = None"
proof (induction hs acc rule: sanitize_entries.induct)
  case (1 acc)
  then show ?case by simp
next
  case (2 key v rest acc)
  from "2.prems"(2) have rest: "\<forall>v0. (k, v0) \<in> set rest \<longrightarrow> has_control (replace_crlf v0)"
    by simp
  show ?case
  proof (cases "has_control (replace_crlf v)")
    case True
    with 2 rest show ?thesis by (simp add: Let_def)
  next
    case False
    with "2.prems"(2) have "k \<noteq> key" by auto
    with "2.prems"(1) have "set_property acc key (replace_crlf v) k = None"
      by (simp add: set_property_def)
    with "2.IH"(1) [OF refl] False rest show ?thesis by (simp add: Let_def)
  qed
qed

lemma sanitize_entries_absent:
  "k \<notin> fst ` set hs \<Longrightarrow> sanitize_entries hs acc k = acc k"
  by (induction hs acc rule: sanitize_entries.induct) (auto simp: Let_def set_property_def)

lemma sanitize_entries_kept:
  "distinct (map fst hs) \<Longrightarrow> (k, v0) \<in> set hs \<Longrightarrow> \<not> has_control (replace_crlf v0)
     \<Longrightarrow> k \<noteq> ''__proto__'' \<Longrightarrow> sanitize_entries hs acc k = Some (replace_crlf v0)"
proof (induction hs acc rule: sanitize_entries.induct)
  case (1 acc)
  then show ?case by simp
next
  case (2 key v rest acc)
  show ?case
  proof (cases "(k, v0) = (key, v)")
    case True
    with "2.prems" have "k \<notin> fst ` set rest" by auto
    with True "2.prems" show ?thesis
      by (simp add: Let_def sanitize_entries_absent set_property_def)
  next
    case False
    with "2.prems" have "(k, v0) \<in> set rest" "distinct (map fst rest)" by auto
    with 2 show ?thesis by (auto simp: Let_def)
  qed
qed

text \<open>
  C7. \<open>sanitizeHeaders\<close> turns every maximal run of carriage returns and line feeds of
  a value into a comma and a space and leaves the other characters as they are; a value
  of its result is such a folded value of an entry of the input and holds no control
  character (\<open>0x00\<close> to \<open>0x1F\<close>, \<open>0x7F\<close>), nor a carriage return or line feed; a
  header all of whose values still hold a control character after the folding is not in
  the result; with distinct header names, a header whose folded value holds no control
  character is in the result with that value (the name \<open>__proto__\<close> apart).
\<close>

theorem sanitizeHeaders_no_control:
  "(\<forall>k v. sanitizeHeaders hs k = Some v \<longrightarrow>
       \<not> has_control v \<and> (\<forall>c \<in> set v. \<not> is_crlf c) \<and>
       (\<exists>v0. (k, v0) \<in> set hs \<and> v = replace_crlf v0)) \<and>
   (\<forall>k. (\<forall>v0. (k, v0) \<in> set hs \<longrightarrow> has_control (replace_crlf v0))
       \<longrightarrow> sanitizeHeaders hs k = None) \<and>
   (\<forall>k v0. distinct (map fst hs) \<and> (k, v0) \<in> set hs \<and> \<not> has_control (replace_crlf v0)
       \<and> k \<noteq> ''__proto__'' \<longrightarrow> sanitizeHeaders hs k = Some (replace_crlf v0)) \<and>
   (\<forall>a r b. r \<noteq> [] \<and> (\<forall>c \<in> set r. is_crlf c) \<and> (a = [] \<or> \<not> is_crlf (last a))
       \<and> (b = [] \<or> \<not> is_crlf (hd b))
       \<longrightarrow> replace_crlf (a @ r @ b) = replace_crlf a @ '', '' @ replace_crlf b) \<and>
   (\<forall>v. (\<forall>c \<in> set v. \<not> is_crlf c) \<longrightarrow> replace_crlf v = v)"
proof (intro conjI allI impI)
  fix k v assume out: "sanitizeHeaders hs k = Some v"
  then have run: "sanitize_entries hs Map.empty k = Some v"
    by (simp add: sanitizeHeaders_def)
  have "\<not> has_control v \<and> (\<exists>v0. (k, v0) \<in> set hs \<and> v = replace_crlf v0)"
    by (rule sanitize_entries_inv [OF run]) auto
  then show "\<not> has_control v" and ex: "\<exists>v0. (k, v0) \<in> set hs \<and> v = replace_crlf v0"
    by blast+
  from ex show "\<forall>c \<in> set v. \<not> is_crlf c"
    using replace_crlf_no_crlf by blast
next
  fix k assume "\<forall>v0. (k, v0) \<in> set hs \<longrightarrow> has_control (replace_crlf v0)"
  then show "sanitizeHeaders hs k = None"
    by (simp add: sanitizeHeaders_def sanitize_entries_dropped)
next
  fix k v0
  assume "distinct (map fst hs) \<and> (k, v0) \<in> set hs \<and> \<not> has_control (replace_crlf v0)
       \<and> k \<noteq> ''__proto__''"
  then show "sanitizeHeaders hs k = Some (replace_crlf v0)"
    by (simp add: sanitizeHeaders_def sanitize_entries_kept)
next
  fix a r b :: string
  assume h: "r \<noteq> [] \<and> (\<forall>c \<in> set r. is_crlf c) \<and> (a = [] \<or> \<not> is_crlf (last a))
       \<and> (b = [] \<or> \<not> is_crlf (hd b))"
  then have "replace_crlf (a @ r @ b) = replace_crlf a @ replace_crlf (r @ b)"
    by (simp add: replace_crlf_append)
  with h show "replace_crlf (a @ r @ b) = replace_crlf a @ '', '' @ replace_crlf b"
    by (simp add: replace_crlf_run)
next
  fix v :: string assume "\<forall>c \<in> set v. \<not> is_crlf c"
  then show "replace_crlf v = v" by (rule replace_crlf_id)
qed

lemma ex_headers_folded:
  "replace_crlf [CHR ''a'', CHR 0x0D, CHR 0x0A, CHR ''b''] = ''a, b''"
  by (simp add: is_crlf_def)

theorem sanitizeHeaders_no_control_witness:
  "sanitizeHeaders ex_headers ''server-timing'' = Some ''a, b'' \<and>
   \<not> has_control ''a, b'' \<and>
   sanitizeHeaders ex_headers ''x-tab'' = None \<and>
   replace_crlf (''a'' @ [CHR 0x0D, CHR 0x0A] @ ''b'') = ''a, b'' \<and>
   replace_crlf ''text/html'' = ''text/html''"
proof -
  note t = sanitizeHeaders_no_control [of ex_headers]
  let ?v0 = "[CHR ''a'', CHR 0x0D, CHR 0x0A, CHR ''b'']"
  have d: "distinct (map fst ex_headers)"
    by (simp add: ex_headers_def)
  have m: "(''server-timing'', ?v0) \<in> set ex_headers"
    by (simp add: ex_headers_def)
  have nc: "\<not> has_control (replace_crlf ?v0)"
    by (simp add: is_crlf_def has_control_def)
  have np: "''server-timing'' \<noteq> ''__proto__''"
    by simp
  from t have "distinct (map fst ex_headers) \<and> (''server-timing'', ?v0) \<in> set ex_headers
      \<and> \<not> has_control (replace_crlf ?v0) \<and> ''server-timing'' \<noteq> ''__proto__''
      \<longrightarrow> sanitizeHeaders ex_headers ''server-timing'' = Some (replace_crlf ?v0)"
    by blast
  with d m nc np have 1: "sanitizeHeaders ex_headers ''server-timing'' = Some ''a, b''"
    by (simp add: is_crlf_def)
  from t 1 have 2: "\<not> has_control ''a, b''"
    by blast
  have "\<forall>v0. (''x-tab'', v0) \<in> set ex_headers \<longrightarrow> has_control (replace_crlf v0)"
    by (simp add: ex_headers_def has_control_def is_crlf_def)
  with t have 3: "sanitizeHeaders ex_headers ''x-tab'' = None"
    by blast
  have r: "[CHR 0x0D, CHR 0x0A] \<noteq> [] \<and> (\<forall>c \<in> set [CHR 0x0D, CHR 0x0A]. is_crlf c)
      \<and> (''a'' = [] \<or> \<not> is_crlf (last ''a'')) \<and> (''b'' = [] \<or> \<not> is_crlf (hd ''b''))"
    by (simp add: is_crlf_def)
  from t have "[CHR 0x0D, CHR 0x0A] \<noteq> [] \<and> (\<forall>c \<in> set [CHR 0x0D, CHR 0x0A]. is_crlf c)
      \<and> (''a'' = [] \<or> \<not> is_crlf (last ''a'')) \<and> (''b'' = [] \<or> \<not> is_crlf (hd ''b''))
      \<longrightarrow> replace_crlf (''a'' @ [CHR 0x0D, CHR 0x0A] @ ''b'')
            = replace_crlf ''a'' @ '', '' @ replace_crlf ''b''"
    by blast
  with r have "replace_crlf (''a'' @ [CHR 0x0D, CHR 0x0A] @ ''b'')
            = replace_crlf ''a'' @ '', '' @ replace_crlf ''b''"
    by blast
  also have "\<dots> = ''a, b''"
    by (simp add: is_crlf_def)
  finally have 4: "replace_crlf (''a'' @ [CHR 0x0D, CHR 0x0A] @ ''b'') = ''a, b''" .
  have "\<forall>c \<in> set ''text/html''. \<not> is_crlf c"
    by (simp add: is_crlf_def)
  with t have 5: "replace_crlf ''text/html'' = ''text/html''"
    by blast
  from 1 2 3 4 5 show ?thesis by (intro conjI)
qed

section \<open>Rounding to binary64\<close>

lemma round_even_of_int: "round_even (of_int m) = m"
  by (simp add: round_even_def)

lemma round_even_le: "x \<le> of_int m \<Longrightarrow> round_even x \<le> m"
proof -
  assume le: "x \<le> of_int m"
  then have f: "\<lfloor>x\<rfloor> \<le> m" by (simp add: floor_le_iff)
  show ?thesis
  proof (cases "\<lfloor>x\<rfloor> = m")
    case True
    with le have "x - of_int \<lfloor>x\<rfloor> \<le> 0" by simp
    then show ?thesis using True by (simp add: round_even_def Let_def)
  next
    case False
    with f have "\<lfloor>x\<rfloor> + 1 \<le> m" by simp
    then show ?thesis by (auto simp: round_even_def Let_def)
  qed
qed

lemma round_even_nonneg: "0 \<le> x \<Longrightarrow> 0 \<le> round_even x"
  by (auto simp: round_even_def Let_def)

lemma floor_nat_pos:
  assumes "1 \<le> (x::real)"
  shows "0 < nat \<lfloor>x\<rfloor> \<and> real (nat \<lfloor>x\<rfloor>) \<le> x"
  using assms by auto

lemma floorlog_lower_real:
  assumes "0 < (k::nat)"
  shows "(2::real) ^ (floorlog 2 k - 1) \<le> real k"
proof -
  from floorlog_bounds [of k 2] assms have "2 ^ (floorlog 2 k - 1) \<le> k" by simp
  then have "real (2 ^ (floorlog 2 k - 1)) \<le> real k"
    by (simp only: of_nat_le_iff)
  then show ?thesis by simp
qed

lemma floorlog_pos:
  assumes "0 < (k::nat)"
  shows "0 < floorlog 2 k"
  using assms by (simp add: floorlog_def)

lemma expo_lower_ge1:
  assumes "1 \<le> x"
  shows "2 powi (expo x) \<le> x"
proof -
  define k where "k = nat \<lfloor>x\<rfloor>"
  from floor_nat_pos [OF assms] have k: "0 < k" "real k \<le> x" by (simp_all add: k_def)
  from floorlog_pos [OF k(1)] obtain j where j: "floorlog 2 k = Suc j"
    by (cases "floorlog 2 k") auto
  have "expo x = int (floorlog 2 k) - 1"
    using assms by (simp add: expo_def k_def)
  with j have "expo x = int j" by simp
  then have "2 powi (expo x) = (2::real) ^ j"
    by (simp only: power_int_of_nat)
  moreover from floorlog_lower_real [OF k(1)] j have "(2::real) ^ j \<le> real k" by simp
  ultimately show ?thesis using k(2) by (simp only: order_trans)
qed

lemma expo_lower_lt1:
  assumes "0 < x" and "x < 1"
  shows "2 powi (expo x) \<le> x"
proof -
  define k where "k = nat (\<lceil>1 / x\<rceil> - 1)"
  from assms have "1 < 1 / x" by simp
  then have c: "2 \<le> \<lceil>1 / x\<rceil>" by linarith
  have k: "0 < k" "int k = \<lceil>1 / x\<rceil> - 1"
    unfolding k_def using c by linarith+
  from floorlog_bounds [of k 2] k have "k < 2 ^ floorlog 2 k" by simp
  then have "int k < int (2 ^ floorlog 2 k)"
    by (simp only: of_nat_less_iff)
  with k have "\<lceil>1 / x\<rceil> \<le> 2 ^ floorlog 2 k" by simp
  then have "1 / x \<le> of_int (2 ^ floorlog 2 k)"
    by (simp only: ceiling_le_iff)
  then have "1 / x \<le> 2 ^ floorlog 2 k" by simp
  with assms have "1 / 2 ^ floorlog 2 k \<le> x"
    by (simp add: field_simps)
  moreover have "expo x = - int (floorlog 2 k)"
    using assms by (simp add: expo_def k_def)
  ultimately show ?thesis
    by (simp add: power_int_minus field_simps)
qed

lemma expo_lower:
  assumes "0 < x"
  shows "2 powi (expo x) \<le> x"
  using assms expo_lower_ge1 [of x] expo_lower_lt1 [of x] by (cases "1 \<le> x") simp_all

lemma expo_le_52:
  assumes "0 < x" and "x < 2 ^ 53"
  shows "expo x \<le> 52"
proof (rule ccontr)
  assume "\<not> expo x \<le> 52"
  then have "53 \<le> expo x" by simp
  then have "(2::real) powi 53 \<le> 2 powi (expo x)"
    by (intro power_int_increasing) simp_all
  with expo_lower [OF assms(1)] assms(2) show False by simp
qed

lemma quantum_nonpos: "0 < x \<Longrightarrow> x < 2 ^ 53 \<Longrightarrow> quantum x \<le> 0"
  using expo_le_52 [of x] by (simp add: quantum_def)

lemma fl_nonneg: "0 \<le> x \<Longrightarrow> 0 \<le> fl x"
  by (auto simp: fl_def intro!: mult_nonneg_nonneg round_even_nonneg divide_nonneg_nonneg)

lemma real_nat_less_53: "n < 2 ^ 53 \<Longrightarrow> real n < 2 ^ 53"
proof -
  assume "n < 2 ^ 53"
  then have "real n < real (2 ^ 53)" by (simp only: of_nat_less_iff)
  then show ?thesis by simp
qed

lemma quantum_power:
  assumes "0 < x" and "x < 2 ^ 53"
  obtains m where "(2::real) powi quantum x = 1 / 2 ^ m"
proof -
  from assms have q: "quantum x \<le> 0" by (rule quantum_nonpos)
  then have "quantum x = - int (nat (- quantum x))" by simp
  then have "(2::real) powi quantum x = 2 powi (- int (nat (- quantum x)))" by simp
  also have "\<dots> = 1 / 2 ^ nat (- quantum x)"
    by (simp only: power_int_minus power_int_of_nat inverse_eq_divide)
  finally show ?thesis by (rule that)
qed

lemma fl_le_nat:
  assumes "0 \<le> x" and "x \<le> real n" and "n < 2 ^ 53"
  shows "fl x \<le> real n"
proof (cases "x = 0")
  case True
  then show ?thesis by (simp add: fl_def)
next
  case False
  with assms(1) have pos: "0 < x" by simp
  from assms(2) real_nat_less_53 [OF assms(3)] have "x < 2 ^ 53" by simp
  with pos obtain m where p: "(2::real) powi quantum x = 1 / 2 ^ m"
    by (rule quantum_power)
  have "x / 2 powi quantum x = x * 2 ^ m" by (simp add: p)
  also have "\<dots> \<le> real n * 2 ^ m" using assms(2) by simp
  also have "\<dots> = of_int (int n * 2 ^ m)" by simp
  finally have "round_even (x / 2 powi quantum x) \<le> int n * 2 ^ m"
    by (rule round_even_le)
  then have "real_of_int (round_even (x / 2 powi quantum x)) \<le> real_of_int (int n * 2 ^ m)"
    by (simp only: of_int_le_iff)
  then have "real_of_int (round_even (x / 2 powi quantum x)) \<le> real n * 2 ^ m"
    by simp
  then have "real_of_int (round_even (x / 2 powi quantum x)) * (1 / 2 ^ m) \<le> real n"
    by (simp add: field_simps)
  with pos show ?thesis by (simp add: fl_def p)
qed

lemma fl_of_nat:
  assumes "n < 2 ^ 53"
  shows "fl (real n) = real n"
proof (cases "n = 0")
  case True
  then show ?thesis by (simp add: fl_def)
next
  case False
  then have pos: "0 < real n" by simp
  from pos real_nat_less_53 [OF assms] obtain m where p: "(2::real) powi quantum (real n) = 1 / 2 ^ m"
    by (rule quantum_power)
  have "real n / 2 powi quantum (real n) = of_int (int n * 2 ^ m)" by (simp add: p)
  then have "round_even (real n / 2 powi quantum (real n)) = int n * 2 ^ m"
    by (simp only: round_even_of_int)
  then have "real_of_int (round_even (real n / 2 powi quantum (real n))) = real n * 2 ^ m"
    by simp
  with pos show ?thesis by (simp add: fl_def p)
qed

section \<open>The chapters a download fetches and exports\<close>

lemma fetchPages_events:
  "fetchPages e g i ci n np p0 pages s = (r, s', tr) \<Longrightarrow>
     \<exists>m \<le> length pages. map fst tr = map (PageFetch ci) [p0..<p0 + m] \<and>
        (\<forall>rm. r = Inr rm \<longrightarrow> m = length pages)"
proof (induction pages arbitrary: p0 s r s' tr)
  case Nil
  then show ?case by auto
next
  case (Cons page rest)
  show ?case
  proof (cases "pg_Fetch page")
    case (Inl msg)
    with Cons.prems have "map fst tr = map (PageFetch ci) [p0..<p0 + 1]" "\<forall>rm. r \<noteq> Inr rm"
      by auto
    then show ?thesis
      by (intro exI [of _ 1]) auto
  next
    case (Inr blob)
    show ?thesis
    proof (cases "SaveTemporary g blob")
      case (Inl msg)
      with Cons.prems \<open>pg_Fetch page = Inr blob\<close>
      have "map fst tr = map (PageFetch ci) [p0..<p0 + 1]" "\<forall>rm. r \<noteq> Inr rm"
        by auto
      then show ?thesis
        by (intro exI [of _ 1]) auto
    next
      case (Inr key)
      let ?s1 = "updateDownloadStatus e s i (update_page (Math_floor (js_mul (js_div
          (js_add (real ci) (js_div (real (p0 + 1)) (real np))) (real n)) 90)))"
      obtain r2 s2 tr2 where rec: "fetchPages e g i ci n np (p0 + 1) rest ?s1 = (r2, s2, tr2)"
        by (cases "fetchPages e g i ci n np (p0 + 1) rest ?s1") auto
      from Cons.IH [OF rec] obtain m where m: "m \<le> length rest"
        "map fst tr2 = map (PageFetch ci) [p0 + 1..<p0 + 1 + m]"
        "\<forall>rm. r2 = Inr rm \<longrightarrow> m = length rest"
        by blast
      from Cons.prems \<open>pg_Fetch page = Inr blob\<close> Inr rec
      have tr: "tr = (PageFetch ci p0, s) # tr2" and r: "\<forall>rm. r = Inr rm \<longrightarrow> (\<exists>rm2. r2 = Inr rm2)"
        by (auto simp: Let_def split: sum.splits)
      have "[p0..<p0 + Suc m] = p0 # [p0 + 1..<p0 + 1 + m]"
        by (simp add: upt_rec)
      with tr m(2) have "map fst tr = map (PageFetch ci) [p0..<p0 + Suc m]"
        by simp
      with m(1,3) r show ?thesis
        by (intro exI [of _ "Suc m"]) auto
    qed
  qed
qed

lemma fetchPages_no_export:
  "fetchPages e g i ci n np p0 pages s = (r, s', tr) \<Longrightarrow> exported tr = []"
proof (induction pages arbitrary: p0 s r s' tr)
  case Nil
  then show ?case by auto
next
  case (Cons page rest)
  then show ?case
    by (auto simp: Let_def split: sum.splits prod.splits)
qed

lemma exportChapter_events:
  "exportChapter e g fmt path title ci chapter rm s = (r, tr) \<Longrightarrow>
     length (exported tr) \<le> 1 \<and> (\<forall>ev \<in> set (map fst tr). event_chapter ev = ci) \<and>
     (\<forall>p. r = Inr p \<longrightarrow> map fst tr = [ExportCall ci p])"
  by (auto simp: exportChapter_def Let_def split: option.splits if_splits)

lemma exported_append: "exported (tr @ tr') = exported tr @ exported tr'"
  by (induction tr rule: exported.induct) auto

lemma downloadChapters_events:
  "downloadChapters e g i fmt title path n ci chs s = (r, s', tr) \<Longrightarrow>
     length (exported tr) \<le> 1 \<and>
     (\<exists>k \<le> length chs. (\<forall>j < k. ch_Update (chs ! j) = Inr []) \<and>
         (\<forall>ev \<in> set (map fst tr). event_chapter ev = ci + k)) \<and>
     (\<forall>p. r = Inr p \<longrightarrow>
        (\<exists>k pages. k < length chs \<and> (\<forall>j < k. ch_Update (chs ! j) = Inr []) \<and>
           ch_Update (chs ! k) = Inr pages \<and> pages \<noteq> [] \<and>
           map fst tr = map (PageFetch (ci + k)) [0..<length pages] @ [ExportCall (ci + k) p]))"
proof (induction chs arbitrary: ci s r s' tr)
  case Nil
  then show ?case by auto
next
  case (Cons ch rest)
  let ?s1 = "updateDownloadStatus e s i (update_chapter (ch_Title ch)
      (Math_floor (js_mul (js_div (real ci) (real n)) 90)))"
  show ?case
  proof (cases "ch_Update ch")
    case (Inl err)
    with Cons.prems have "tr = []" "r = Inl err" by (auto simp: Let_def)
    then show ?thesis by (auto intro!: exI [of _ 0])
  next
    case (Inr pages)
    show ?thesis
    proof (cases "pages = []")
      case True
      with Cons.prems Inr
      have rec: "downloadChapters e g i fmt title path n (ci + 1) rest ?s1 = (r, s', tr)"
        by (simp add: Let_def)
      from Cons.IH [OF rec] have len: "length (exported tr) \<le> 1"
        and ex1: "\<exists>k \<le> length rest. (\<forall>j < k. ch_Update (rest ! j) = Inr []) \<and>
           (\<forall>ev \<in> set (map fst tr). event_chapter ev = ci + 1 + k)"
        and ex2: "\<forall>p. r = Inr p \<longrightarrow>
          (\<exists>k pages. k < length rest \<and> (\<forall>j < k. ch_Update (rest ! j) = Inr []) \<and>
             ch_Update (rest ! k) = Inr pages \<and> pages \<noteq> [] \<and>
             map fst tr = map (PageFetch (ci + 1 + k)) [0..<length pages] @ [ExportCall (ci + 1 + k) p])"
        by blast+
      have skip: "\<And>k. \<forall>j < k. ch_Update (rest ! j) = Inr [] \<Longrightarrow>
          \<forall>j < Suc k. ch_Update ((ch # rest) ! j) = Inr []"
        using Inr True by (auto simp: nth_Cons split: nat.splits)
      from ex1 obtain k where k: "k \<le> length rest" "\<forall>j < k. ch_Update (rest ! j) = Inr []"
        "\<forall>ev \<in> set (map fst tr). event_chapter ev = ci + 1 + k"
        by blast
      have a: "\<exists>k \<le> length (ch # rest). (\<forall>j < k. ch_Update ((ch # rest) ! j) = Inr []) \<and>
         (\<forall>ev \<in> set (map fst tr). event_chapter ev = ci + k)"
        using k skip [OF k(2)] by (intro exI [of _ "Suc k"]) auto
      have b: "\<forall>p. r = Inr p \<longrightarrow>
        (\<exists>k pages. k < length (ch # rest) \<and> (\<forall>j < k. ch_Update ((ch # rest) ! j) = Inr []) \<and>
           ch_Update ((ch # rest) ! k) = Inr pages \<and> pages \<noteq> [] \<and>
           map fst tr = map (PageFetch (ci + k)) [0..<length pages] @ [ExportCall (ci + k) p])"
      proof (intro allI impI)
        fix p assume "r = Inr p"
        with ex2 obtain k' pages' where k': "k' < length rest"
          "\<forall>j < k'. ch_Update (rest ! j) = Inr []" "ch_Update (rest ! k') = Inr pages'" "pages' \<noteq> []"
          "map fst tr = map (PageFetch (ci + 1 + k')) [0..<length pages'] @ [ExportCall (ci + 1 + k') p]"
          by blast
        then show "\<exists>k pages. k < length (ch # rest) \<and>
           (\<forall>j < k. ch_Update ((ch # rest) ! j) = Inr []) \<and>
           ch_Update ((ch # rest) ! k) = Inr pages \<and> pages \<noteq> [] \<and>
           map fst tr = map (PageFetch (ci + k)) [0..<length pages] @ [ExportCall (ci + k) p]"
          using skip [OF k'(2)] by (intro exI [of _ "Suc k'"] exI [of _ pages']) auto
      qed
      from len a b show ?thesis by blast
    next
      case False
      obtain r2 s2 tr2 where fp: "fetchPages e g i ci n (length pages) 0 pages ?s1 = (r2, s2, tr2)"
        by (cases "fetchPages e g i ci n (length pages) 0 pages ?s1") auto
      from fetchPages_events [OF fp] obtain m where m: "m \<le> length pages"
        "map fst tr2 = map (PageFetch ci) [0..<m]" "\<forall>rm. r2 = Inr rm \<longrightarrow> m = length pages"
        by auto
      from fetchPages_no_export [OF fp] have ne: "exported tr2 = []" .
      from m(2) have ev2: "\<forall>ev \<in> set (map fst tr2). event_chapter ev = ci" by auto
      show ?thesis
      proof (cases r2)
        case (Inl err)
        with Cons.prems Inr False fp have "tr = tr2" "r = Inl err"
          by (auto simp: Let_def)
        with ne ev2 show ?thesis by (auto intro!: exI [of _ 0])
      next
        case (Inr rm)
        obtain r3 tr3 where ex: "exportChapter e g fmt path title ci ch rm s2 = (r3, tr3)"
          by (cases "exportChapter e g fmt path title ci ch rm s2") auto
        from Cons.prems \<open>ch_Update ch = Inr pages\<close> False fp Inr ex
        have res: "tr = tr2 @ tr3" "r = r3"
          by (auto simp: Let_def)
        from exportChapter_events [OF ex] have e3: "length (exported tr3) \<le> 1"
          "\<forall>ev \<in> set (map fst tr3). event_chapter ev = ci"
          "\<forall>p. r3 = Inr p \<longrightarrow> map fst tr3 = [ExportCall ci p]"
          by blast+
        from m(3) Inr have full: "map fst tr2 = map (PageFetch ci) [0..<length pages]"
          using m(2) by simp
        have a: "length (exported tr) \<le> 1"
          using res ne e3(1) by (simp add: exported_append)
        have b: "\<exists>k \<le> length (ch # rest). (\<forall>j < k. ch_Update ((ch # rest) ! j) = Inr []) \<and>
           (\<forall>ev \<in> set (map fst tr). event_chapter ev = ci + k)"
          using res ev2 e3(2) by (intro exI [of _ 0]) auto
        have c: "\<forall>p. r = Inr p \<longrightarrow>
          (\<exists>k pages. k < length (ch # rest) \<and> (\<forall>j < k. ch_Update ((ch # rest) ! j) = Inr []) \<and>
             ch_Update ((ch # rest) ! k) = Inr pages \<and> pages \<noteq> [] \<and>
             map fst tr = map (PageFetch (ci + k)) [0..<length pages] @ [ExportCall (ci + k) p])"
          using res e3(3) full False \<open>ch_Update ch = Inr pages\<close>
          by (intro allI impI exI [of _ 0] exI [of _ pages]) auto
        from a b c show ?thesis by blast
      qed
    qed
  qed
qed

section \<open>Chapter labels\<close>

text \<open>Evaluation of the number functions on numerals.\<close>

lemma shortest_numeral:
  "shortest x k (numeral n) =
     (case candidate x k of Some c \<Rightarrow> (k, c) | None \<Rightarrow> shortest x (Suc k) (pred_numeral n))"
  by (simp only: numeral_eq_Suc shortest.simps)

lemma nat_digits_numeral:
  "nat_digits (numeral n) s = nat_digits (pred_numeral n) (s div 10) @ [digit_char (s mod 10)]"
  by (simp only: numeral_eq_Suc nat_digits.simps)

lemmas label_eval =
  extractChapterNumber_def patterns_def pattern_Ch_at_def pattern_Chapter_at_def number_at_def
  is_digit_def upper_def is_space_def Number_toString_def parseFloat_def to_number_def
  decimal_value_def digit_val_def fl_def quantum_def expo_def round_even_def compute_floorlog
  candidate_def dec_expo_def digit_char_def power_int_minus Let_def shortest_numeral
  nat_digits_numeral

lemma label_black_swordsman: "extractChapterNumber e ''Ch.001 - The Black Swordsman'' = ''1''"
  by (simp add: label_eval)

lemma label_chapter_42_5: "extractChapterNumber e ''Chapter 42.5'' = ''42.5''"
  by (simp add: label_eval)

lemma label_vol_1_chapter_3: "extractChapterNumber e ''Vol.1 Chapter 3'' = ''3''"
  by (simp add: label_eval)

lemma label_chapter_2: "extractChapterNumber e ''Chapter 2'' = ''2''"
  by (simp add: label_eval)

lemma number_at_no_digit: "\<forall>c \<in> set s. \<not> is_digit c \<Longrightarrow> number_at s = None"
  by (cases s) (auto simp: number_at_def)

lemma search_number_at_no_digit: "\<forall>c \<in> set s. \<not> is_digit c \<Longrightarrow> search number_at s = None"
  by (induction s) (auto simp: number_at_no_digit split: option.splits)

lemma ci_prefix_rest: "ci_prefix p s = Some r \<Longrightarrow> set r \<subseteq> set s"
  by (induction p s rule: ci_prefix.induct) (auto split: if_splits)

lemma pattern_Ch_at_no_digit: "\<forall>c \<in> set s. \<not> is_digit c \<Longrightarrow> pattern_Ch_at s = None"
proof (cases "ci_prefix ''Ch'' s")
  case None
  then show ?thesis by (simp add: pattern_Ch_at_def)
next
  case (Some r)
  assume nd: "\<forall>c \<in> set s. \<not> is_digit c"
  with ci_prefix_rest [OF Some] have r: "\<forall>c \<in> set r. \<not> is_digit c" by blast
  then have "number_at r = None" by (rule number_at_no_digit)
  moreover from r have "\<And>c r'. r = c # r' \<Longrightarrow> number_at r' = None"
    by (intro number_at_no_digit) auto
  ultimately show ?thesis
    using Some by (auto simp: pattern_Ch_at_def split: list.splits)
qed

lemma pattern_Chapter_at_no_digit: "\<forall>c \<in> set s. \<not> is_digit c \<Longrightarrow> pattern_Chapter_at s = None"
proof (cases "ci_prefix ''Chapter'' s")
  case None
  then show ?thesis by (simp add: pattern_Chapter_at_def)
next
  case (Some r)
  assume nd: "\<forall>c \<in> set s. \<not> is_digit c"
  with ci_prefix_rest [OF Some] have "\<forall>c \<in> set r. \<not> is_digit c" by blast
  then have "\<forall>c \<in> set (dropWhile is_space r). \<not> is_digit c"
    using set_dropWhileD by fastforce
  then have "number_at (dropWhile is_space r) = None" by (rule number_at_no_digit)
  then show ?thesis using Some by (simp add: pattern_Chapter_at_def)
qed

lemma search_no_digit:
  assumes "\<And>s. \<forall>c \<in> set s. \<not> is_digit c \<Longrightarrow> f s = None"
  shows "\<forall>c \<in> set s. \<not> is_digit c \<Longrightarrow> search f s = None"
  by (induction s) (auto simp: assms split: option.splits)

lemma first_match_no_digit:
  assumes "\<forall>c \<in> set title. \<not> is_digit c"
  shows "first_match patterns title = None"
  using assms
  by (simp add: patterns_def number_at_no_digit
        search_no_digit [of pattern_Ch_at, OF pattern_Ch_at_no_digit]
        search_no_digit [of pattern_Chapter_at, OF pattern_Chapter_at_no_digit]
        search_no_digit [of number_at, OF number_at_no_digit])

lemma decimal_value_leading_zero: "decimal_value (CHR ''0'' # m) = decimal_value m"
  by (simp add: decimal_value_def is_digit_def digit_val_def Let_def)

subsection \<open>The patterns on a title\<close>

lemma ci_prefix_ci_eq: "ci_eq x p \<Longrightarrow> ci_prefix p (x @ r) = Some r"
proof (induction p arbitrary: x)
  case Nil
  then show ?case by (simp add: ci_eq_def)
next
  case (Cons c p)
  then obtain y x' where x: "x = y # x'" by (cases x) (auto simp: ci_eq_def)
  with Cons.prems have "upper y = upper c" "ci_eq x' p" by (simp_all add: ci_eq_def)
  with Cons.IH [of x'] x show ?case by simp
qed

lemma ci_prefix_Some:
  "ci_prefix p s = Some r \<Longrightarrow> ci_eq (take (length p) s) p \<and> r = drop (length p) s"
proof (induction p s rule: ci_prefix.induct)
  case (1 s)
  then show ?case by (simp add: ci_eq_def)
next
  case (2 p ps)
  then show ?case by simp
next
  case (3 p ps c cs)
  then show ?case by (auto simp: ci_eq_def split: if_splits)
qed

lemma ci_prefix_iff:
  "ci_prefix p s = Some r \<longleftrightarrow> ci_eq (take (length p) s) p \<and> r = drop (length p) s"
proof
  assume "ci_prefix p s = Some r"
  then show "ci_eq (take (length p) s) p \<and> r = drop (length p) s" by (rule ci_prefix_Some)
next
  assume a: "ci_eq (take (length p) s) p \<and> r = drop (length p) s"
  then have "ci_prefix p (take (length p) s @ drop (length p) s) = Some (drop (length p) s)"
    by (intro ci_prefix_ci_eq) simp
  with a show "ci_prefix p s = Some r" by (simp only: append_take_drop_id)
qed

lemma ci_prefix_Ch:
  "ci_prefix ''Ch'' s = Some r \<longleftrightarrow> ci_eq (take 2 s) ''Ch'' \<and> r = drop 2 s"
proof -
  have "length ''Ch'' = 2" by simp
  from ci_prefix_iff [of "''Ch''" s r, unfolded this] show ?thesis .
qed

lemma ci_prefix_Chapter:
  "ci_prefix ''Chapter'' s = Some r \<longleftrightarrow> ci_eq (take 7 s) ''Chapter'' \<and> r = drop 7 s"
proof -
  have "length ''Chapter'' = 7" by simp
  from ci_prefix_iff [of "''Chapter''" s r, unfolded this] show ?thesis .
qed

lemma number_at_None: "number_at s = None \<longleftrightarrow> \<not> starts_digit s"
  by (cases s) (auto simp: number_at_def starts_digit_def Let_def split: list.splits)

lemma takeWhile_digits:
  "digits ds \<Longrightarrow> \<not> starts_digit b \<Longrightarrow> takeWhile is_digit (ds @ b) = ds"
  by (cases b) (auto simp: digits_def starts_digit_def takeWhile_append2)

lemma dropWhile_digits:
  "digits ds \<Longrightarrow> \<not> starts_digit b \<Longrightarrow> dropWhile is_digit (ds @ b) = b"
  by (cases b) (auto simp: digits_def starts_digit_def dropWhile_append2)

lemma not_digit_dot: "\<not> is_digit CHR ''.''"
  by (simp add: is_digit_def)

lemma number_at_number_before:
  assumes "number_before m b"
  shows "number_at (m @ b) = Some m"
proof -
  from assms have nb: "\<not> starts_digit b" by (simp add: number_before_def)
  from assms consider
    (whole) "digits m" "\<not> (\<exists>b'. b = CHR ''.'' # b' \<and> starts_digit b')"
    | (fraction) ip fp where "m = ip @ ''.'' @ fp" "digits ip" "digits fp"
    by (auto simp: number_before_def)
  then show ?thesis
  proof cases
    case whole
    from whole(1) nb have tw: "takeWhile is_digit (m @ b) = m" "dropWhile is_digit (m @ b) = b"
      by (simp_all add: takeWhile_digits dropWhile_digits)
    from whole(1) have "m \<noteq> []" by (simp add: digits_def)
    moreover from whole(2) have "\<And>c b'. b = c # b' \<Longrightarrow> c = CHR ''.'' \<Longrightarrow> takeWhile is_digit b' = []"
      by (auto simp: starts_digit_def takeWhile_eq_Nil_iff split: list.splits)
    ultimately show ?thesis
      unfolding number_at_def Let_def tw by (auto split: list.splits)
  next
    case fraction
    have sd: "\<not> starts_digit (''.'' @ fp @ b)" by (simp add: starts_digit_def not_digit_dot)
    from fraction(2) sd have tw: "takeWhile is_digit (ip @ ''.'' @ fp @ b) = ip"
      "dropWhile is_digit (ip @ ''.'' @ fp @ b) = ''.'' @ fp @ b"
      by (rule takeWhile_digits, rule dropWhile_digits)
    from fraction(3) nb have fp: "takeWhile is_digit (fp @ b) = fp" by (rule takeWhile_digits)
    from fraction(2,3) have ne: "ip \<noteq> []" "fp \<noteq> []" by (simp_all add: digits_def)
    show ?thesis
      unfolding fraction(1) number_at_def Let_def append_assoc tw
      using ne fp by simp
  qed
qed

lemma number_before_starts: "number_before m b \<Longrightarrow> starts_digit (m @ b)"
  using number_at_number_before [of m b] number_at_None [of "m @ b"] by auto

lemma digit_not_space: "is_digit c \<Longrightarrow> \<not> is_space c"
  by (auto simp: is_digit_def is_space_def)

lemma upper_dot: "upper c = upper CHR ''.'' \<Longrightarrow> c = CHR ''.''"
proof -
  assume "upper c = upper CHR ''.''"
  then have "of_char c = (of_char CHR ''.'' :: nat)"
    by (auto simp: upper_def Let_def split: if_splits)
  then show ?thesis by (simp only: of_char_eq_iff)
qed

lemma ci_eq_Ch_dot:
  assumes "ci_eq x ''Ch.''"
  shows "\<exists>y. x = y @ ''.'' \<and> ci_eq y ''Ch''"
proof -
  from assms obtain c1 c2 c3 where x: "x = [c1, c2, c3]"
    and u: "upper c1 = upper CHR ''C''" "upper c2 = upper CHR ''h''" "upper c3 = upper CHR ''.''"
    by (auto simp: ci_eq_def map_eq_Cons_conv)
  from u(3) have "c3 = CHR ''.''" by (rule upper_dot)
  with x u(1,2) have "x = [c1, c2] @ ''.'' \<and> ci_eq [c1, c2] ''Ch''"
    by (simp add: ci_eq_def)
  then show ?thesis by blast
qed

text \<open>Each pattern matches at the start of a text exactly when the text reads so.\<close>

lemma pattern_Ch_at_None: "pattern_Ch_at s = None \<longleftrightarrow> \<not> Ch_here s"
proof (cases "ci_prefix ''Ch'' s")
  case None
  with ci_prefix_Ch [of s "drop 2 s"] have "\<not> ci_eq (take 2 s) ''Ch''" by simp
  with None show ?thesis by (simp add: pattern_Ch_at_def Ch_here_def)
next
  case (Some r)
  with ci_prefix_Ch [of s r] have ci: "ci_eq (take 2 s) ''Ch''" and r: "r = drop 2 s"
    by simp_all
  have "drop 1 (drop 2 s) = drop (1 + 2) s" by (rule drop_drop)
  also have "(1::nat) + 2 = 3" by simp
  finally have d3: "drop 3 s = drop 1 r" by (simp only: r)
  show ?thesis
  proof (cases r)
    case Nil
    with Some ci r [symmetric] d3 show ?thesis
      by (simp add: pattern_Ch_at_def Ch_here_def number_at_None starts_digit_def)
  next
    case (Cons c r')
    show ?thesis
    proof (cases "c = CHR ''.''")
      case True
      with Cons have n: "number_at r = None" by (simp add: number_at_None starts_digit_def not_digit_dot)
      from Cons True d3 have d: "drop 3 s = r'" "\<not> starts_digit (drop 2 s)" "take 1 (drop 2 s) = ''.''"
        by (simp_all add: r [symmetric] starts_digit_def not_digit_dot)
      show ?thesis
      proof (cases "number_at r'")
        case None
        with Some Cons True n have "pattern_Ch_at s = None" by (simp add: pattern_Ch_at_def)
        moreover from None have "\<not> starts_digit r'" by (simp add: number_at_None)
        ultimately show ?thesis unfolding Ch_here_def using d by simp
      next
        case (Some m)
        with \<open>ci_prefix ''Ch'' s = Some r\<close> Cons True have "pattern_Ch_at s = Some m"
          by (simp add: pattern_Ch_at_def)
        moreover from Some have "starts_digit r'" using number_at_None [of r'] by simp
        ultimately show ?thesis unfolding Ch_here_def using d ci by simp
      qed
    next
      case False
      with Some Cons ci r [symmetric] d3 show ?thesis
        by (simp add: pattern_Ch_at_def Ch_here_def number_at_None starts_digit_def)
    qed
  qed
qed

lemma pattern_Ch_at_value:
  assumes "ci_eq x ''Ch'' \<or> ci_eq x ''Ch.''" and "number_before m b"
  shows "pattern_Ch_at (x @ m @ b) = Some m"
proof -
  from assms(2) have n: "number_at (m @ b) = Some m" by (rule number_at_number_before)
  from assms(2) have "starts_digit (m @ b)" by (rule number_before_starts)
  then obtain c r' where mb: "m @ b = c # r'" and c: "is_digit c"
    by (auto simp: starts_digit_def split: list.splits)
  from c have nd: "c \<noteq> CHR ''.''" using not_digit_dot by blast
  from assms(1) show ?thesis
  proof
    assume "ci_eq x ''Ch''"
    then have "ci_prefix ''Ch'' (x @ m @ b) = Some (m @ b)" by (rule ci_prefix_ci_eq)
    with n mb nd show ?thesis by (simp add: pattern_Ch_at_def)
  next
    assume "ci_eq x ''Ch.''"
    then obtain y where x: "x = y @ ''.''" and y: "ci_eq y ''Ch''"
      using ci_eq_Ch_dot by blast
    from y have "ci_prefix ''Ch'' (y @ ''.'' @ m @ b) = Some (''.'' @ m @ b)" by (rule ci_prefix_ci_eq)
    with n x show ?thesis by (simp add: pattern_Ch_at_def)
  qed
qed

lemma pattern_Chapter_at_None: "pattern_Chapter_at s = None \<longleftrightarrow> \<not> Chapter_here s"
proof (cases "ci_prefix ''Chapter'' s")
  case None
  with ci_prefix_Chapter [of s "drop 7 s"] have "\<not> ci_eq (take 7 s) ''Chapter''" by simp
  with None show ?thesis by (simp add: pattern_Chapter_at_def Chapter_here_def)
next
  case (Some r)
  with ci_prefix_Chapter [of s r] have "ci_eq (take 7 s) ''Chapter''" "r = drop 7 s"
    by simp_all
  with Some show ?thesis
    by (simp add: pattern_Chapter_at_def Chapter_here_def number_at_None)
qed

lemma pattern_Chapter_at_value:
  assumes "ci_eq x ''Chapter''" and "\<forall>c \<in> set w. is_space c" and "number_before m b"
  shows "pattern_Chapter_at (x @ w @ m @ b) = Some m"
proof -
  from assms(3) have n: "number_at (m @ b) = Some m" by (rule number_at_number_before)
  from assms(3) have "starts_digit (m @ b)" by (rule number_before_starts)
  then obtain c r' where mb: "m @ b = c # r'" and c: "is_digit c"
    by (auto simp: starts_digit_def split: list.splits)
  from c have "\<not> is_space c" by (rule digit_not_space)
  with mb have "dropWhile is_space (m @ b) = m @ b" by simp
  with assms(2) have "dropWhile is_space (w @ m @ b) = m @ b"
    by (simp add: dropWhile_append2)
  moreover from assms(1) have "ci_prefix ''Chapter'' (x @ w @ m @ b) = Some (w @ m @ b)"
    by (rule ci_prefix_ci_eq)
  ultimately show ?thesis using n by (simp add: pattern_Chapter_at_def)
qed

text \<open>An unanchored pattern: no match anywhere, and the leftmost match.\<close>

lemma search_None: "search f t = None \<longleftrightarrow> (\<forall>i \<le> length t. f (drop i t) = None)"
proof (induction t)
  case Nil
  then show ?case by simp
next
  case (Cons c cs)
  have "(\<forall>i \<le> length (c # cs). f (drop i (c # cs)) = None)
      \<longleftrightarrow> f (c # cs) = None \<and> (\<forall>i \<le> length cs. f (drop i cs) = None)"
  proof
    assume a: "\<forall>i \<le> length (c # cs). f (drop i (c # cs)) = None"
    then have "f (drop 0 (c # cs)) = None" by blast
    moreover have "\<forall>i \<le> length cs. f (drop i cs) = None"
    proof (intro allI impI)
      fix i assume "i \<le> length cs"
      then have "Suc i \<le> length (c # cs)" by simp
      with a have "f (drop (Suc i) (c # cs)) = None" by blast
      then show "f (drop i cs) = None" by simp
    qed
    ultimately show "f (c # cs) = None \<and> (\<forall>i \<le> length cs. f (drop i cs) = None)" by simp
  next
    assume a: "f (c # cs) = None \<and> (\<forall>i \<le> length cs. f (drop i cs) = None)"
    show "\<forall>i \<le> length (c # cs). f (drop i (c # cs)) = None"
    proof (intro allI impI)
      fix i assume "i \<le> length (c # cs)"
      with a show "f (drop i (c # cs)) = None" by (cases i) simp_all
    qed
  qed
  with Cons show ?case by (simp split: option.splits)
qed

lemma search_first:
  "(\<forall>i < length a. f (drop i (a @ s)) = None) \<Longrightarrow> f s = Some m \<Longrightarrow> search f (a @ s) = Some m"
proof (induction a)
  case Nil
  then show ?case by (cases s) simp_all
next
  case (Cons c a)
  from Cons.prems(1) have "f (drop 0 ((c # a) @ s)) = None" by blast
  then have 0: "f (c # a @ s) = None" by simp
  have "\<forall>i < length a. f (drop i (a @ s)) = None"
  proof (intro allI impI)
    fix i assume "i < length a"
    then have "Suc i < length (c # a)" by simp
    with Cons.prems(1) have "f (drop (Suc i) ((c # a) @ s)) = None" by blast
    then show "f (drop i (a @ s)) = None" by simp
  qed
  from Cons.IH [OF this Cons.prems(2)] 0 show ?case by simp
qed

lemma Ch_here_Nil: "\<not> Ch_here []"
  by (simp add: Ch_here_def ci_eq_def)

lemma Chapter_here_Nil: "\<not> Chapter_here []"
  by (simp add: Chapter_here_def ci_eq_def)

lemma search_Ch_None: "search pattern_Ch_at t = None \<longleftrightarrow> (\<forall>i. \<not> Ch_here (drop i t))"
proof -
  have "(\<forall>i \<le> length t. \<not> Ch_here (drop i t)) \<longleftrightarrow> (\<forall>i. \<not> Ch_here (drop i t))"
  proof
    assume a: "\<forall>i \<le> length t. \<not> Ch_here (drop i t)"
    show "\<forall>i. \<not> Ch_here (drop i t)"
    proof
      fix i
      from a show "\<not> Ch_here (drop i t)" by (cases "i \<le> length t") (simp_all add: Ch_here_Nil)
    qed
  qed simp
  then show ?thesis by (simp add: search_None pattern_Ch_at_None)
qed

lemma search_Chapter_None:
  "search pattern_Chapter_at t = None \<longleftrightarrow> (\<forall>i. \<not> Chapter_here (drop i t))"
proof -
  have "(\<forall>i \<le> length t. \<not> Chapter_here (drop i t)) \<longleftrightarrow> (\<forall>i. \<not> Chapter_here (drop i t))"
  proof
    assume a: "\<forall>i \<le> length t. \<not> Chapter_here (drop i t)"
    show "\<forall>i. \<not> Chapter_here (drop i t)"
    proof
      fix i
      from a show "\<not> Chapter_here (drop i t)"
        by (cases "i \<le> length t") (simp_all add: Chapter_here_Nil)
    qed
  qed simp
  then show ?thesis by (simp add: search_None pattern_Chapter_at_None)
qed

text \<open>The label of a title, by the pattern that gives it.\<close>

lemma label_Ch:
  assumes "ci_eq x ''Ch'' \<or> ci_eq x ''Ch.''" and "number_before m b"
    and "\<forall>i < length a. \<not> Ch_here (drop i (a @ x @ m @ b))"
  shows "extractChapterNumber e (a @ x @ m @ b) = Number_toString (parseFloat m)"
proof -
  from assms(3) have "\<forall>i < length a. pattern_Ch_at (drop i (a @ x @ m @ b)) = None"
    by (simp only: pattern_Ch_at_None)
  moreover from assms(1,2) have "pattern_Ch_at (x @ m @ b) = Some m"
    by (rule pattern_Ch_at_value)
  ultimately have "search pattern_Ch_at (a @ x @ m @ b) = Some m"
    by (rule search_first)
  then show ?thesis by (simp add: extractChapterNumber_def patterns_def)
qed

lemma label_Chapter:
  assumes "ci_eq x ''Chapter''" and "\<forall>c \<in> set w. is_space c" and "number_before m b"
    and "\<forall>i. \<not> Ch_here (drop i (a @ x @ w @ m @ b))"
    and "\<forall>i < length a. \<not> Chapter_here (drop i (a @ x @ w @ m @ b))"
  shows "extractChapterNumber e (a @ x @ w @ m @ b) = Number_toString (parseFloat m)"
proof -
  from assms(4) have 1: "search pattern_Ch_at (a @ x @ w @ m @ b) = None"
    by (rule search_Ch_None [THEN iffD2])
  from assms(5) have "\<forall>i < length a. pattern_Chapter_at (drop i (a @ x @ w @ m @ b)) = None"
    by (simp only: pattern_Chapter_at_None)
  moreover from assms(1,2,3) have "pattern_Chapter_at (x @ w @ m @ b) = Some m"
    by (rule pattern_Chapter_at_value)
  ultimately have "search pattern_Chapter_at (a @ x @ w @ m @ b) = Some m"
    by (rule search_first)
  with 1 show ?thesis by (simp add: extractChapterNumber_def patterns_def)
qed

lemma label_number:
  assumes "\<forall>c \<in> set a. \<not> is_digit c" and "number_before m b"
    and "\<forall>i. \<not> Ch_here (drop i (a @ m @ b))"
    and "\<forall>i. \<not> Chapter_here (drop i (a @ m @ b))"
  shows "extractChapterNumber e (a @ m @ b) = Number_toString (parseFloat m)"
proof -
  from assms(3) have 1: "search pattern_Ch_at (a @ m @ b) = None"
    by (rule search_Ch_None [THEN iffD2])
  from assms(4) have 2: "search pattern_Chapter_at (a @ m @ b) = None"
    by (rule search_Chapter_None [THEN iffD2])
  from assms(2) have n: "number_at (m @ b) = Some m" by (rule number_at_number_before)
  have "\<forall>i < length a. number_at (drop i (a @ m @ b)) = None"
  proof (intro allI impI)
    fix i assume i: "i < length a"
    then have "drop i (a @ m @ b) = a ! i # drop (Suc i) a @ m @ b"
      by (simp add: Cons_nth_drop_Suc)
    moreover from i assms(1) have "\<not> is_digit (a ! i)" by simp
    ultimately show "number_at (drop i (a @ m @ b)) = None"
      by (simp add: number_at_None starts_digit_def)
  qed
  from this n have 3: "search number_at (a @ m @ b) = Some m" by (rule search_first)
  show ?thesis
  proof (cases "number_at (a @ m @ b)")
    case None
    with 1 2 3 show ?thesis by (simp add: extractChapterNumber_def patterns_def)
  next
    case (Some m')
    have "a = []"
    proof (rule ccontr)
      assume "a \<noteq> []"
      then obtain c a' where a: "a = c # a'" by (cases a) auto
      with assms(1) have "\<not> is_digit c" by simp
      with a have "number_at (a @ m @ b) = None" by (simp add: number_at_None starts_digit_def)
      with Some show False by simp
    qed
    with n 1 2 show ?thesis by (simp add: extractChapterNumber_def patterns_def)
  qed
qed

text \<open>
  A number at the start of a title is also its first number anywhere: where the third
  pattern matches, the fourth captures the same text.
\<close>

lemma number_at_search: "number_at s = Some m \<Longrightarrow> search number_at s = Some m"
  by (cases s) simp_all

text \<open>
  C4. \<open>extractChapterNumber\<close> maps \<open>Ch.001 - The Black Swordsman\<close> to \<open>1\<close>,
  \<open>Chapter 42.5\<close> to \<open>42.5\<close> and \<open>Vol.1 Chapter 3\<close> to \<open>3\<close>, and a title without
  a digit to its sanitized text. The patterns are tried in their order. A title that
  reads \<open>Ch\<close> or \<open>Ch.\<close> and a number, with no such reading further to the left, has
  the label of that number, whatever else it holds: an earlier or later \<open>Chapter\<close>
  with a number, a number at its start. A title that nowhere reads \<open>Ch\<close> and a number,
  and reads \<open>Chapter\<close>, white space and a number, with no such reading further to the
  left, has the label of that number, also after a number at its start. A title with
  neither reading has the label of its first number, at the start or further on. The
  label of a number is the text of its value, so that a zero in front of the matched
  text does not change it.
\<close>

theorem extractChapterNumber_labels:
  "extractChapterNumber e ''Ch.001 - The Black Swordsman'' = ''1'' \<and>
   extractChapterNumber e ''Chapter 42.5'' = ''42.5'' \<and>
   extractChapterNumber e ''Vol.1 Chapter 3'' = ''3'' \<and>
   (\<forall>title. (\<forall>c \<in> set title. \<not> is_digit c)
       \<longrightarrow> extractChapterNumber e title = SanitizeFileName e title) \<and>
   (\<forall>a x m b.
       (ci_eq x ''Ch'' \<or> ci_eq x ''Ch.'') \<and> number_before m b \<and>
       (\<forall>i < length a. \<not> Ch_here (drop i (a @ x @ m @ b)))
       \<longrightarrow> extractChapterNumber e (a @ x @ m @ b) = Number_toString (parseFloat m)) \<and>
   (\<forall>a x w m b.
       ci_eq x ''Chapter'' \<and> (\<forall>c \<in> set w. is_space c) \<and> number_before m b \<and>
       (\<forall>i. \<not> Ch_here (drop i (a @ x @ w @ m @ b))) \<and>
       (\<forall>i < length a. \<not> Chapter_here (drop i (a @ x @ w @ m @ b)))
       \<longrightarrow> extractChapterNumber e (a @ x @ w @ m @ b) = Number_toString (parseFloat m)) \<and>
   (\<forall>a m b.
       (\<forall>c \<in> set a. \<not> is_digit c) \<and> number_before m b \<and>
       (\<forall>i. \<not> Ch_here (drop i (a @ m @ b))) \<and>
       (\<forall>i. \<not> Chapter_here (drop i (a @ m @ b)))
       \<longrightarrow> extractChapterNumber e (a @ m @ b) = Number_toString (parseFloat m)) \<and>
   (\<forall>m. Number_toString (parseFloat (CHR ''0'' # m)) = Number_toString (parseFloat m))"
proof (intro conjI allI impI)
  fix title assume "\<forall>c \<in> set title. \<not> is_digit c"
  then show "extractChapterNumber e title = SanitizeFileName e title"
    by (simp add: extractChapterNumber_def first_match_no_digit)
next
  fix a x m b
  assume "(ci_eq x ''Ch'' \<or> ci_eq x ''Ch.'') \<and> number_before m b \<and>
       (\<forall>i < length a. \<not> Ch_here (drop i (a @ x @ m @ b)))"
  then show "extractChapterNumber e (a @ x @ m @ b) = Number_toString (parseFloat m)"
    by (intro label_Ch) blast+
next
  fix a x w m b
  assume "ci_eq x ''Chapter'' \<and> (\<forall>c \<in> set w. is_space c) \<and> number_before m b \<and>
       (\<forall>i. \<not> Ch_here (drop i (a @ x @ w @ m @ b))) \<and>
       (\<forall>i < length a. \<not> Chapter_here (drop i (a @ x @ w @ m @ b)))"
  then show "extractChapterNumber e (a @ x @ w @ m @ b) = Number_toString (parseFloat m)"
    by (intro label_Chapter) blast+
next
  fix a m b
  assume "(\<forall>c \<in> set a. \<not> is_digit c) \<and> number_before m b \<and>
       (\<forall>i. \<not> Ch_here (drop i (a @ m @ b))) \<and>
       (\<forall>i. \<not> Chapter_here (drop i (a @ m @ b)))"
  then show "extractChapterNumber e (a @ m @ b) = Number_toString (parseFloat m)"
    by (intro label_number) blast+
next
  fix m
  show "Number_toString (parseFloat (CHR ''0'' # m)) = Number_toString (parseFloat m)"
    by (simp add: parseFloat_def decimal_value_leading_zero)
qed (rule label_black_swordsman label_chapter_42_5 label_vol_1_chapter_3)+

theorem extractChapterNumber_labels_witness:
  "extractChapterNumber ex_env ''Prologue'' = ''Prologue'' \<and>
   extractChapterNumber ex_env ''Chapter 1 ch2'' = ''2'' \<and>
   extractChapterNumber ex_env ''12 Chapter 7'' = ''7'' \<and>
   extractChapterNumber ex_env ''Episode 12.5 raw'' = ''12.5'' \<and>
   Number_toString (parseFloat ''007'') = ''7''"
proof -
  note t = extractChapterNumber_labels [of ex_env]
  have nd: "\<forall>c \<in> set ''Prologue''. \<not> is_digit c"
    by (simp add: is_digit_def)
  from t [THEN conjunct2, THEN conjunct2, THEN conjunct2, THEN conjunct1, THEN spec, THEN mp, OF nd]
  have "extractChapterNumber ex_env ''Prologue'' = SanitizeFileName ex_env ''Prologue''" .
  then have 1: "extractChapterNumber ex_env ''Prologue'' = ''Prologue''"
    by (simp add: ex_env_def)
  have n2: "Number_toString (parseFloat ''2'') = ''2''"
    and n7: "Number_toString (parseFloat ''7'') = ''7''"
    and n125: "Number_toString (parseFloat ''12.5'') = ''12.5''"
    by (simp_all add: label_eval)
  have "(ci_eq ''ch'' ''Ch'' \<or> ci_eq ''ch'' ''Ch.'') \<and> number_before ''2'' [] \<and>
      (\<forall>i < length ''Chapter 1 ''. \<not> Ch_here (drop i (''Chapter 1 '' @ ''ch'' @ ''2'' @ [])))"
    by (simp add: ci_eq_def upper_def number_before_def digits_def starts_digit_def is_digit_def
          Ch_here_def All_less_Suc)
  from t [THEN conjunct2, THEN conjunct2, THEN conjunct2, THEN conjunct2, THEN conjunct1,
          THEN spec, THEN spec, THEN spec, THEN spec, THEN mp, OF this]
  have 2: "extractChapterNumber ex_env ''Chapter 1 ch2'' = ''2''"
    by (simp add: n2)
  have "search pattern_Ch_at (''12 '' @ ''Chapter'' @ '' '' @ ''7'' @ []) = None"
    by (simp add: pattern_Ch_at_def number_at_def is_digit_def upper_def)
  then have "\<forall>i. \<not> Ch_here (drop i (''12 '' @ ''Chapter'' @ '' '' @ ''7'' @ []))"
    by (rule search_Ch_None [THEN iffD1])
  moreover have "ci_eq ''Chapter'' ''Chapter'' \<and> (\<forall>c \<in> set '' ''. is_space c) \<and> number_before ''7'' []"
    by (simp add: ci_eq_def is_space_def number_before_def digits_def starts_digit_def is_digit_def)
  moreover have "\<forall>i < length ''12 ''. \<not> Chapter_here (drop i (''12 '' @ ''Chapter'' @ '' '' @ ''7'' @ []))"
    by (simp add: Chapter_here_def ci_eq_def upper_def All_less_Suc)
  ultimately have "ci_eq ''Chapter'' ''Chapter'' \<and> (\<forall>c \<in> set '' ''. is_space c) \<and> number_before ''7'' [] \<and>
      (\<forall>i. \<not> Ch_here (drop i (''12 '' @ ''Chapter'' @ '' '' @ ''7'' @ []))) \<and>
      (\<forall>i < length ''12 ''. \<not> Chapter_here (drop i (''12 '' @ ''Chapter'' @ '' '' @ ''7'' @ [])))"
    by blast
  from t [THEN conjunct2, THEN conjunct2, THEN conjunct2, THEN conjunct2, THEN conjunct2,
          THEN conjunct1, THEN spec, THEN spec, THEN spec, THEN spec, THEN spec, THEN mp, OF this]
  have 3: "extractChapterNumber ex_env ''12 Chapter 7'' = ''7''"
    by (simp add: n7)
  have "''12.5'' = ''12'' @ ''.'' @ ''5'' \<and> digits ''12'' \<and> digits ''5''"
    by (simp add: digits_def is_digit_def)
  then have "\<exists>ip fp. ''12.5'' = ip @ ''.'' @ fp \<and> digits ip \<and> digits fp"
    by blast
  moreover have "\<not> starts_digit '' raw''"
    by (simp add: starts_digit_def is_digit_def)
  ultimately have nb: "number_before ''12.5'' '' raw''"
    unfolding number_before_def by blast
  have "search pattern_Ch_at (''Episode '' @ ''12.5'' @ '' raw'') = None"
    by (simp add: pattern_Ch_at_def number_at_def is_digit_def upper_def)
  then have c: "\<forall>i. \<not> Ch_here (drop i (''Episode '' @ ''12.5'' @ '' raw''))"
    by (rule search_Ch_None [THEN iffD1])
  have "search pattern_Chapter_at (''Episode '' @ ''12.5'' @ '' raw'') = None"
    by (simp add: pattern_Chapter_at_def number_at_def is_digit_def upper_def)
  then have d: "\<forall>i. \<not> Chapter_here (drop i (''Episode '' @ ''12.5'' @ '' raw''))"
    by (rule search_Chapter_None [THEN iffD1])
  have "\<forall>c \<in> set ''Episode ''. \<not> is_digit c"
    by (simp add: is_digit_def)
  with nb c d have "(\<forall>c \<in> set ''Episode ''. \<not> is_digit c) \<and> number_before ''12.5'' '' raw'' \<and>
      (\<forall>i. \<not> Ch_here (drop i (''Episode '' @ ''12.5'' @ '' raw''))) \<and>
      (\<forall>i. \<not> Chapter_here (drop i (''Episode '' @ ''12.5'' @ '' raw'')))"
    by blast
  from t [THEN conjunct2, THEN conjunct2, THEN conjunct2, THEN conjunct2, THEN conjunct2,
          THEN conjunct2, THEN conjunct1, THEN spec, THEN spec, THEN spec, THEN mp, OF this]
  have 4: "extractChapterNumber ex_env ''Episode 12.5 raw'' = ''12.5''"
    by (simp add: n125)
  from t [THEN conjunct2, THEN conjunct2, THEN conjunct2, THEN conjunct2, THEN conjunct2,
          THEN conjunct2, THEN conjunct2, THEN spec, of "''07''"]
    t [THEN conjunct2, THEN conjunct2, THEN conjunct2, THEN conjunct2, THEN conjunct2,
          THEN conjunct2, THEN conjunct2, THEN spec, of "''7''"]
  have 5: "Number_toString (parseFloat ''007'') = ''7''"
    by (simp only: n7)
  from 1 2 3 4 5 show ?thesis by (intro conjI)
qed

section \<open>One chapter per download\<close>

lemma ex_skip_run:
  "\<exists>s' st1 st2.
     downloadAndExport ex_env ex_engine ex_service ''q'' ex_request ex_chapters_skip
         ''Berserk'' ''downloads''
       = (Inr ''downloads/Berserk/chapter_2.cbz'', s',
          [(PageFetch 1 0, st1), (ExportCall 1 ''downloads/Berserk/chapter_2.cbz'', st2)])"
  by (simp add: downloadAndExport_def ex_chapters_skip_def ex_chapter_def ex_page_def
        ex_request_def ex_engine_def ex_env_def exportChapter_def Let_def label_chapter_2)

text \<open>
  C9, as stated, fails: when the first resolved chapter has no pages it is skipped, and
  the second one is fetched, exported, and its path returned.
\<close>

theorem downloadAndExport_exports_second_chapter:
  "fst (downloadAndExport ex_env ex_engine ex_service ''q'' ex_request ex_chapters_skip
          ''Berserk'' ''downloads'') = Inr ''downloads/Berserk/chapter_2.cbz'' \<and>
   map fst (snd (snd (downloadAndExport ex_env ex_engine ex_service ''q'' ex_request
          ex_chapters_skip ''Berserk'' ''downloads'')))
     = [PageFetch 1 0, ExportCall 1 ''downloads/Berserk/chapter_2.cbz'']"
  using ex_skip_run by auto

text \<open>
  C9, amended. \<open>downloadAndExport\<close> calls the exporter at most once. Every page it
  fetches and the export belong to one chapter, before which every resolved chapter has
  an empty page list. When it returns a path, that chapter has pages, all of them were
  fetched in order and then exported once, to the path returned: no other resolved
  chapter is fetched or exported.
\<close>

theorem downloadAndExport_one_chapter:
  assumes "downloadAndExport e g s i request chapters title path = (r, s', tr)"
  shows "length (exported tr) \<le> 1 \<and>
     (\<exists>k \<le> length chapters. (\<forall>j < k. ch_Update (chapters ! j) = Inr []) \<and>
         (\<forall>ev \<in> set (map fst tr). event_chapter ev = k)) \<and>
     (\<forall>p. r = Inr p \<longrightarrow>
        (\<exists>k pages. k < length chapters \<and> (\<forall>j < k. ch_Update (chapters ! j) = Inr []) \<and>
           ch_Update (chapters ! k) = Inr pages \<and> pages \<noteq> [] \<and>
           map fst tr = map (PageFetch k) [0..<length pages] @ [ExportCall k p]))"
proof -
  from assms have "downloadChapters e g i (case req_format request of None \<Rightarrow> Cbz | Some f \<Rightarrow> f)
      title path (length chapters) 0 chapters s = (r, s', tr)"
    by (simp add: downloadAndExport_def)
  from downloadChapters_events [OF this] show ?thesis
    by simp
qed

theorem downloadAndExport_one_chapter_witness:
  "\<exists>s' tr. downloadAndExport ex_env ex_engine ex_service ''q'' ex_request ex_chapters_skip
         ''Berserk'' ''downloads'' = (Inr ''downloads/Berserk/chapter_2.cbz'', s', tr) \<and>
     length (exported tr) \<le> 1 \<and>
     (\<exists>k pages. k < length ex_chapters_skip \<and>
           (\<forall>j < k. ch_Update (ex_chapters_skip ! j) = Inr []) \<and>
           ch_Update (ex_chapters_skip ! k) = Inr pages \<and> pages \<noteq> [] \<and>
           map fst tr = map (PageFetch k) [0..<length pages]
                        @ [ExportCall k ''downloads/Berserk/chapter_2.cbz''])"
proof -
  from ex_skip_run obtain s' tr where run:
    "downloadAndExport ex_env ex_engine ex_service ''q'' ex_request ex_chapters_skip
         ''Berserk'' ''downloads'' = (Inr ''downloads/Berserk/chapter_2.cbz'', s', tr)"
    by blast
  note t = downloadAndExport_one_chapter [OF run]
  from t have a: "length (exported tr) \<le> 1"
    by (rule conjunct1)
  note b = t [THEN conjunct2, THEN conjunct2, rule_format, OF refl]
  from run a b show ?thesis
    by (intro exI [of _ s'] exI [of _ tr] conjI)
qed

section \<open>Progress while the pages are fetched\<close>

lemma js_progress_start:
  assumes "ci < 2 ^ 53"
  shows "js_progress ci 0 np n = Math_floor (js_mul (js_div (real ci) (real n)) 90)"
proof -
  have "js_div (real 0) (real np) = 0"
    by (simp add: js_div_def fl_def)
  moreover have "js_add (real ci) 0 = real ci"
    using fl_of_nat [OF assms] by (simp add: js_add_def)
  ultimately show ?thesis
    by (simp add: js_progress_def)
qed

lemma js_progress_bounds:
  assumes "pj \<le> np" and "ci < n" and "n < 2 ^ 53"
  shows "0 \<le> js_progress ci pj np n \<and> js_progress ci pj np n \<le> 90"
proof -
  define a where "a = js_div (real pj) (real np)"
  define b where "b = js_add (real ci) a"
  define c where "c = js_div b (real n)"
  define d where "d = js_mul c 90"
  have one: "(1::nat) < 2 ^ 53" by simp
  have "0 \<le> real pj / real np" by simp
  moreover from assms(1) have "real pj / real np \<le> real 1"
    by (cases "np = 0") (simp_all add: field_simps)
  ultimately have a: "0 \<le> a" "a \<le> 1"
    using fl_nonneg [of "real pj / real np"] fl_le_nat [of "real pj / real np" 1, OF _ _ one]
    by (simp_all add: a_def js_div_def)
  from assms(2,3) have ci1: "ci + 1 < 2 ^ 53" "ci + 1 \<le> n" by simp_all
  from a have "0 \<le> real ci + a" "real ci + a \<le> real (ci + 1)" by simp_all
  then have "0 \<le> b" "b \<le> real (ci + 1)"
    using fl_nonneg [of "real ci + a"] fl_le_nat [of "real ci + a" "ci + 1", OF _ _ ci1(1)]
    by (simp_all add: b_def js_add_def)
  with ci1(2) have b: "0 \<le> b" "b \<le> real n"
    by simp_all
  from assms(2) have npos: "0 < real n" by simp
  from b npos have "0 \<le> b / real n" "b / real n \<le> real 1"
    by (simp_all add: field_simps)
  then have c: "0 \<le> c" "c \<le> 1"
    using fl_nonneg [of "b / real n"] fl_le_nat [of "b / real n" 1, OF _ _ one]
    by (simp_all add: c_def js_div_def)
  have ninety: "(90::nat) < 2 ^ 53" by simp
  from c have "0 \<le> c * 90" "c * 90 \<le> real 90" by simp_all
  then have "0 \<le> d" "d \<le> 90"
    using fl_nonneg [of "c * 90"] fl_le_nat [of "c * 90" 90, OF _ _ ninety]
    by (simp_all add: d_def js_mul_def)
  then have "0 \<le> \<lfloor>d\<rfloor>" "\<lfloor>d\<rfloor> \<le> 90"
    by (simp_all add: floor_le_iff) 
  then show ?thesis
    by (simp add: js_progress_def Math_floor_def a_def b_def c_def d_def)
qed

lemma updateDownloadStatus_progress:
  "downloads s i = Some d \<Longrightarrow> p_progress u = Some p \<Longrightarrow>
     \<exists>d'. downloads (updateDownloadStatus e s i u) i = Some d' \<and> progress d' = p"
  by (simp add: updateDownloadStatus_def assign_def)

lemma fetchPages_progress:
  "fetchPages e g i ci n np p0 pages s = (r, s', tr) \<Longrightarrow>
   downloads s i = Some d \<Longrightarrow> progress d = js_progress ci p0 np n \<Longrightarrow>
   (PageFetch c pj, st) \<in> set tr \<Longrightarrow>
     c = ci \<and> p0 \<le> pj \<and> pj < p0 + length pages \<and>
     (\<exists>d'. downloads st i = Some d' \<and> progress d' = js_progress ci pj np n)"
proof (induction pages arbitrary: p0 s d r s' tr)
  case Nil
  then show ?case by simp
next
  case (Cons page rest)
  show ?case
  proof (cases "pg_Fetch page")
    case (Inl msg)
    with Cons.prems show ?thesis by auto
  next
    case (Inr blob)
    show ?thesis
    proof (cases "SaveTemporary g blob")
      case (Inl msg)
      with Cons.prems \<open>pg_Fetch page = Inr blob\<close> show ?thesis by auto
    next
      case (Inr key)
      let ?u = "update_page (Math_floor (js_mul (js_div
          (js_add (real ci) (js_div (real (p0 + 1)) (real np))) (real n)) 90))"
      let ?s1 = "updateDownloadStatus e s i ?u"
      obtain r2 s2 tr2 where rec: "fetchPages e g i ci n np (p0 + 1) rest ?s1 = (r2, s2, tr2)"
        by (cases "fetchPages e g i ci n np (p0 + 1) rest ?s1") auto
      from Cons.prems(1) \<open>pg_Fetch page = Inr blob\<close> Inr rec
      have tr: "tr = (PageFetch ci p0, s) # tr2"
        by (auto simp: Let_def split: sum.splits)
      have "p_progress ?u = Some (js_progress ci (p0 + 1) np n)"
        by (simp add: update_page_def no_update_def js_progress_def)
      from updateDownloadStatus_progress [OF Cons.prems(2) this]
      obtain d1 where d1: "downloads ?s1 i = Some d1" "progress d1 = js_progress ci (p0 + 1) np n"
        by blast
      show ?thesis
      proof (cases "(PageFetch c pj, st) = (PageFetch ci p0, s)")
        case True
        with Cons.prems(2,3) show ?thesis by auto
      next
        case False
        with tr Cons.prems(4) have "(PageFetch c pj, st) \<in> set tr2" by auto
        from Cons.IH [OF rec d1 this] show ?thesis by auto
      qed
    qed
  qed
qed

lemma exportChapter_no_fetch:
  "exportChapter e g fmt path title ci ch rm s = (r, tr) \<Longrightarrow> (PageFetch c pj, st) \<notin> set tr"
  by (auto simp: exportChapter_def Let_def split: option.splits if_splits)

lemma updateDownloadStatus_keeps:
  "downloads s i = Some d \<Longrightarrow> \<exists>d'. downloads (updateDownloadStatus e s i u) i = Some d'"
  by (simp add: updateDownloadStatus_def)

lemma downloadChapters_progress:
  "downloadChapters e g i fmt title path n ci chs s = (r, s', tr) \<Longrightarrow>
   downloads s i = Some d \<Longrightarrow> ci + length chs \<le> n \<Longrightarrow> n < 2 ^ 53 \<Longrightarrow>
   (PageFetch c pj, st) \<in> set tr \<Longrightarrow>
     \<exists>k pages d'. c = ci + k \<and> k < length chs \<and> ch_Update (chs ! k) = Inr pages \<and>
        pj < length pages \<and> downloads st i = Some d' \<and>
        progress d' = js_progress c pj (length pages) n"
proof (induction chs arbitrary: ci s d r s' tr)
  case Nil
  then show ?case by simp
next
  case (Cons ch rest)
  let ?u = "update_chapter (ch_Title ch) (Math_floor (js_mul (js_div (real ci) (real n)) 90))"
  let ?s1 = "updateDownloadStatus e s i ?u"
  from Cons.prems(3,4) have ci: "ci < 2 ^ 53" by simp
  show ?case
  proof (cases "ch_Update ch")
    case (Inl err)
    with Cons.prems show ?thesis by (auto simp: Let_def)
  next
    case (Inr pages)
    show ?thesis
    proof (cases "pages = []")
      case True
      with Cons.prems(1) Inr
      have rec: "downloadChapters e g i fmt title path n (ci + 1) rest ?s1 = (r, s', tr)"
        by (simp add: Let_def)
      from updateDownloadStatus_keeps [OF Cons.prems(2)] obtain d1 where
        d1: "downloads ?s1 i = Some d1" by blast
      from Cons.prems(3) have "ci + 1 + length rest \<le> n" by simp
      from Cons.IH [OF rec d1 this Cons.prems(4,5)] obtain k pages' d' where
        "c = ci + 1 + k" "k < length rest" "ch_Update (rest ! k) = Inr pages'"
        "pj < length pages'" "downloads st i = Some d'"
        "progress d' = js_progress c pj (length pages') n"
        by blast
      then show ?thesis
        by (intro exI [of _ "Suc k"] exI [of _ pages'] exI [of _ d']) simp
    next
      case False
      obtain r2 s2 tr2 where fp: "fetchPages e g i ci n (length pages) 0 pages ?s1 = (r2, s2, tr2)"
        by (cases "fetchPages e g i ci n (length pages) 0 pages ?s1") auto
      have "p_progress ?u = Some (js_progress ci 0 (length pages) n)"
        by (simp add: update_chapter_def no_update_def js_progress_start [OF ci])
      from updateDownloadStatus_progress [OF Cons.prems(2) this]
      obtain d1 where d1: "downloads ?s1 i = Some d1"
        "progress d1 = js_progress ci 0 (length pages) n"
        by blast
      have "(PageFetch c pj, st) \<in> set tr2"
      proof (cases r2)
        case (Inl err)
        with Cons.prems(1,5) Inr False fp show ?thesis by (auto simp: Let_def)
      next
        case (Inr rm)
        obtain r3 tr3 where ex: "exportChapter e g fmt path title ci ch rm s2 = (r3, tr3)"
          by (cases "exportChapter e g fmt path title ci ch rm s2") auto
        with Cons.prems(1) \<open>ch_Update ch = Inr pages\<close> False fp Inr
        have "tr = tr2 @ tr3" by (auto simp: Let_def)
        with Cons.prems(5) exportChapter_no_fetch [OF ex] show ?thesis by auto
      qed
      from fetchPages_progress [OF fp d1 this] obtain d' where
        "c = ci" "pj < length pages" "downloads st i = Some d'"
        "progress d' = js_progress ci pj (length pages) n"
        by auto
      with Inr show ?thesis
        by (intro exI [of _ 0] exI [of _ pages] exI [of _ d']) simp
    qed
  qed
qed


lemma label_chapter_1: "extractChapterNumber e ''Chapter 1'' = ''1''"
  by (simp add: label_eval)

lemmas js_eval =
  js_div_def js_add_def js_mul_def Math_floor_def fl_def quantum_def expo_def round_even_def
  compute_floorlog power_int_minus Let_def

lemma js_progress_7_of_10: "js_progress 0 7 10 1 = 62"
  by (simp add: js_progress_def js_eval)

lemma ex_ten_events:
  "map fst (snd (snd (downloadAndExport ex_env ex_engine ex_service ''q'' ex_request
        ex_chapters_ten ''Berserk'' ''downloads'')))
     = map (PageFetch 0) [0, 1, 2, 3, 4, 5, 6, 7, 8, 9]
       @ [ExportCall 0 ''downloads/Berserk/chapter_1.cbz'']"
  by (simp add: downloadAndExport_def ex_chapters_ten_def ex_chapter_def ex_page_def
        ex_request_def ex_engine_def ex_env_def exportChapter_def Let_def label_chapter_1)

lemma ex_ten_member:
  "fst (snd (snd (downloadAndExport ex_env ex_engine ex_service ''q'' ex_request ex_chapters_ten
          ''Berserk'' ''downloads'')) ! 7) = PageFetch 0 7 \<and>
   (PageFetch 0 7,
    snd (snd (snd (downloadAndExport ex_env ex_engine ex_service ''q'' ex_request ex_chapters_ten
          ''Berserk'' ''downloads'')) ! 7))
     \<in> set (snd (snd (downloadAndExport ex_env ex_engine ex_service ''q'' ex_request
          ex_chapters_ten ''Berserk'' ''downloads'')))"
proof -
  define tr where "tr = snd (snd (downloadAndExport ex_env ex_engine ex_service ''q'' ex_request
      ex_chapters_ten ''Berserk'' ''downloads''))"
  have ev: "map fst tr = map (PageFetch 0) [0, 1, 2, 3, 4, 5, 6, 7, 8, 9]
       @ [ExportCall 0 ''downloads/Berserk/chapter_1.cbz'']"
    unfolding tr_def by (rule ex_ten_events)
  then have "length (map fst tr) = 11" by simp
  then have len: "7 < length tr" by simp
  then have "fst (tr ! 7) = map fst tr ! 7" by simp
  with ev have f: "fst (tr ! 7) = PageFetch 0 7" by simp
  from len have "tr ! 7 \<in> set tr" by (rule nth_mem)
  with f have "(PageFetch 0 7, snd (tr ! 7)) \<in> set tr"
    by (metis prod.collapse)
  with f show ?thesis by (simp add: tr_def)
qed

lemma ex_ten_run:
  "fst (snd (snd (downloadAndExport ex_env ex_engine ex_service ''q'' ex_request ex_chapters_ten
          ''Berserk'' ''downloads'')) ! 7) = PageFetch 0 7 \<and>
   map_option progress (downloads (snd (snd (snd (downloadAndExport ex_env ex_engine ex_service
          ''q'' ex_request ex_chapters_ten ''Berserk'' ''downloads'')) ! 7)) ''q'') = Some 62"
proof -
  define X where "X = downloadAndExport ex_env ex_engine ex_service ''q'' ex_request
      ex_chapters_ten ''Berserk'' ''downloads''"
  define tr where "tr = snd (snd X)"
  from ex_ten_member have f: "fst (tr ! 7) = PageFetch 0 7"
    and mem: "(PageFetch 0 7, snd (tr ! 7)) \<in> set tr"
    by (simp_all add: tr_def X_def)
  have run: "downloadChapters ex_env ex_engine ''q'' Cbz ''Berserk'' ''downloads''
      (length ex_chapters_ten) 0 ex_chapters_ten ex_service = (fst X, fst (snd X), tr)"
    by (simp add: X_def tr_def downloadAndExport_def ex_request_def)
  have q: "downloads ex_service ''q'' = Some (ex_status ''q'' Queued)"
    by (simp add: ex_service_def)
  have n: "0 + length ex_chapters_ten \<le> length ex_chapters_ten"
    "length ex_chapters_ten < 2 ^ 53"
    by (simp_all add: ex_chapters_ten_def)
  from downloadChapters_progress [OF run q n mem] obtain k pages d' where
    k: "0 = 0 + k" "ch_Update (ex_chapters_ten ! k) = Inr pages" and
    d': "downloads (snd (tr ! 7)) ''q'' = Some d'"
    "progress d' = js_progress 0 7 (length pages) (length ex_chapters_ten)"
    by blast
  from k have "length pages = 10"
    by (auto simp: ex_chapters_ten_def ex_chapter_def)
  moreover have "length ex_chapters_ten = 1"
    by (simp add: ex_chapters_ten_def)
  ultimately have "downloads (snd (tr ! 7)) ''q'' = Some d'" "progress d' = js_progress 0 7 10 1"
    using d' by simp_all
  with f js_progress_7_of_10 show ?thesis
    by (simp add: tr_def X_def)
qed

text \<open>
  C3, as stated, fails: while page 7 of the ten pages of a single chapter is fetched the
  recorded progress is 62, and the formula over the reals gives 63.
\<close>

theorem progress_page_7_of_10:
  "fst (snd (snd (downloadAndExport ex_env ex_engine ex_service ''q'' ex_request ex_chapters_ten
          ''Berserk'' ''downloads'')) ! 7) = PageFetch 0 7 \<and>
   map_option progress (downloads (snd (snd (snd (downloadAndExport ex_env ex_engine ex_service
          ''q'' ex_request ex_chapters_ten ''Berserk'' ''downloads'')) ! 7)) ''q'') = Some 62 \<and>
   exact_progress 0 7 10 1 = 63"
  using ex_ten_run by (simp add: exact_progress_def)

text \<open>
  C3, amended. While page \<open>pageIndex\<close> of the chapter at position \<open>chapterIndex\<close> is
  fetched, the recorded progress is the formula
  \<open>(chapterIndex + pageIndex/pageCount) / totalChapters * 90\<close> evaluated in
  JavaScript numbers (each operation rounded to the nearest binary64 value) and rounded
  down; it lies between 0 and 90, the values above 90 being left to the export.
\<close>

theorem progress_while_fetching:
  assumes "downloadAndExport e g s i request chapters title path = (r, s', tr)"
    and "downloads s i = Some d"
    and "length chapters < 2 ^ 32"
  shows "\<forall>ci pj st. (PageFetch ci pj, st) \<in> set tr \<longrightarrow>
     (\<exists>pages d'. ci < length chapters \<and> ch_Update (chapters ! ci) = Inr pages \<and>
        pj < length pages \<and> downloads st i = Some d' \<and>
        progress d' = js_progress ci pj (length pages) (length chapters) \<and>
        0 \<le> progress d' \<and> progress d' \<le> 90)"
proof (intro allI impI)
  fix ci pj st
  assume ev: "(PageFetch ci pj, st) \<in> set tr"
  have n: "length chapters < 2 ^ 53"
    using assms(3) by (rule less_trans) simp
  from assms(1) have run: "downloadChapters e g i
      (case req_format request of None \<Rightarrow> Cbz | Some f \<Rightarrow> f)
      title path (length chapters) 0 chapters s = (r, s', tr)"
    by (simp add: downloadAndExport_def)
  from downloadChapters_progress [OF run assms(2) _ n ev]
  obtain pages d' where *: "ci < length chapters" "ch_Update (chapters ! ci) = Inr pages"
    "pj < length pages" "downloads st i = Some d'"
    "progress d' = js_progress ci pj (length pages) (length chapters)"
    by auto
  from *(3) have "pj \<le> length pages" by simp
  from js_progress_bounds [OF this *(1) n] * show
    "\<exists>pages d'. ci < length chapters \<and> ch_Update (chapters ! ci) = Inr pages \<and>
        pj < length pages \<and> downloads st i = Some d' \<and>
        progress d' = js_progress ci pj (length pages) (length chapters) \<and>
        0 \<le> progress d' \<and> progress d' \<le> 90"
    by auto
qed


theorem progress_while_fetching_witness:
  "\<exists>pages d'. ch_Update (ex_chapters_ten ! 0) = Inr pages \<and> 7 < length pages \<and>
      downloads (snd (snd (snd (downloadAndExport ex_env ex_engine ex_service ''q'' ex_request
          ex_chapters_ten ''Berserk'' ''downloads'')) ! 7)) ''q'' = Some d' \<and>
      progress d' = js_progress 0 7 (length pages) (length ex_chapters_ten) \<and>
      0 \<le> progress d' \<and> progress d' \<le> 90"
proof -
  define X where "X = downloadAndExport ex_env ex_engine ex_service ''q'' ex_request
      ex_chapters_ten ''Berserk'' ''downloads''"
  have run: "downloadAndExport ex_env ex_engine ex_service ''q'' ex_request
      ex_chapters_ten ''Berserk'' ''downloads'' = (fst X, fst (snd X), snd (snd X))"
    by (simp add: X_def)
  have q: "downloads ex_service ''q'' = Some (ex_status ''q'' Queued)"
    by (simp add: ex_service_def)
  have n: "length ex_chapters_ten < 2 ^ 32"
    by (simp add: ex_chapters_ten_def)
  from ex_ten_member have mem: "(PageFetch 0 7, snd (snd (snd X) ! 7)) \<in> set (snd (snd X))"
    by (simp add: X_def)
  from progress_while_fetching [OF run q n, rule_format, OF mem] show ?thesis
    unfolding X_def by blast
qed

section \<open>Waiting for a challenge\<close>

lemma polls_append: "polls (a @ b) = polls a @ polls b"
  by (induction a rule: polls.induct) auto

lemma waitLoop_timeout:
  "\<not> now - startTime < maxWaitTime \<Longrightarrow>
     waitLoop p startTime maxWaitTime now lastTitle = (Returned, now, [ChallengeTimeout])"
  by (subst waitLoop.simps) simp

lemma waitLoop_passed:
  "now - startTime < maxWaitTime \<Longrightarrow> evaluate_info p now = (d, Info title False) \<Longrightarrow>
     waitLoop p startTime maxWaitTime now lastTitle
       = (Returned, now + d,
          Poll now # (if title \<noteq> lastTitle then [PageTitle title] else []) @ [ChallengePassed])"
  by (subst waitLoop.simps) (simp add: Let_def)

lemma waitLoop_challenged:
  "now - startTime < maxWaitTime \<Longrightarrow> evaluate_info p now = (d, Info title True) \<Longrightarrow>
     waitLoop p startTime maxWaitTime now lastTitle
       = (fst (waitLoop p startTime maxWaitTime (now + d + 500) title),
          fst (snd (waitLoop p startTime maxWaitTime (now + d + 500) title)),
          Poll now # (if title \<noteq> lastTitle then [PageTitle title] else [])
            @ snd (snd (waitLoop p startTime maxWaitTime (now + d + 500) title)))"
  by (subst waitLoop.simps) (simp add: Let_def split: prod.splits)

lemma waitLoop_type_error:
  "now - startTime < maxWaitTime \<Longrightarrow> evaluate_info p now = (d, Throws Nullish) \<Longrightarrow>
     waitLoop p startTime maxWaitTime now lastTitle = (TypeError, now + d, [Poll now])"
  by (subst waitLoop.simps) simp

lemma waitLoop_raised:
  "now - startTime < maxWaitTime \<Longrightarrow> evaluate_info p now = (d, Throws (ErrorObject m)) \<Longrightarrow>
   \<not> context_destroyed m \<Longrightarrow>
     waitLoop p startTime maxWaitTime now lastTitle = (Raised m, now + d, [Poll now])"
  by (subst waitLoop.simps) simp

lemma waitLoop_navigated_passed:
  "now - startTime < maxWaitTime \<Longrightarrow> evaluate_info p now = (d, Throws (ErrorObject m)) \<Longrightarrow>
   context_destroyed m \<Longrightarrow> evaluate_title p (now + d + 1000) = (d2, Still False) \<Longrightarrow>
     waitLoop p startTime maxWaitTime now lastTitle
       = (Returned, now + d + 1000 + d2, [Poll now, NavigatedDuringCheck, PassedAfterNavigation])"
  by (subst waitLoop.simps) simp

lemma waitLoop_navigated_again:
  "now - startTime < maxWaitTime \<Longrightarrow> evaluate_info p now = (d, Throws (ErrorObject m)) \<Longrightarrow>
   context_destroyed m \<Longrightarrow> evaluate_title p (now + d + 1000) = (d2, again) \<Longrightarrow>
   again \<noteq> Still False \<Longrightarrow>
     waitLoop p startTime maxWaitTime now lastTitle
       = (fst (waitLoop p startTime maxWaitTime (now + d + 1000 + d2 + 500) lastTitle),
          fst (snd (waitLoop p startTime maxWaitTime (now + d + 1000 + d2 + 500) lastTitle)),
          Poll now # NavigatedDuringCheck
            # snd (snd (waitLoop p startTime maxWaitTime (now + d + 1000 + d2 + 500) lastTitle)))"
  by (subst waitLoop.simps) (simp split: prod.splits)

text \<open>
  The cases of one iteration: the deadline has passed; the signal is gone; the signal is
  there; the evaluation fails, with \<open>null\<close> or \<open>undefined\<close>, with the execution
  context destroyed or otherwise.
\<close>

lemma waitLoop_cases:
  obtains (timeout) "\<not> now - startTime < maxWaitTime"
  | (passed) d title where "now - startTime < maxWaitTime" "evaluate_info p now = (d, Info title False)"
  | (challenged) d title where "now - startTime < maxWaitTime" "evaluate_info p now = (d, Info title True)"
  | (type_error) d where "now - startTime < maxWaitTime" "evaluate_info p now = (d, Throws Nullish)"
  | (raised) d m where "now - startTime < maxWaitTime" "evaluate_info p now = (d, Throws (ErrorObject m))"
      "\<not> context_destroyed m"
  | (navigated_passed) d m d2 where "now - startTime < maxWaitTime"
      "evaluate_info p now = (d, Throws (ErrorObject m))" "context_destroyed m"
      "evaluate_title p (now + d + 1000) = (d2, Still False)"
  | (navigated_again) d m d2 again where "now - startTime < maxWaitTime"
      "evaluate_info p now = (d, Throws (ErrorObject m))" "context_destroyed m"
      "evaluate_title p (now + d + 1000) = (d2, again)" "again \<noteq> Still False"
proof (cases "now - startTime < maxWaitTime")
  case False
  then show ?thesis by (rule timeout)
next
  case True
  obtain d x where ev: "evaluate_info p now = (d, x)" by (cases "evaluate_info p now") auto
  show ?thesis
  proof (cases x)
    case (Info title h)
    with True ev show ?thesis by (cases h) (auto intro: passed challenged)
  next
    case (Throws v)
    show ?thesis
    proof (cases v)
      case Nullish
      with True ev Throws show ?thesis by (auto intro: type_error)
    next
      case (ErrorObject m)
      obtain d2 again where rc: "evaluate_title p (now + d + 1000) = (d2, again)"
        by (cases "evaluate_title p (now + d + 1000)") auto
      with True ev Throws ErrorObject show ?thesis
        by (cases "context_destroyed m"; cases "again = Still False")
           (auto intro: raised navigated_passed navigated_again)
    qed
  qed
qed

text \<open>The recursion, as an induction rule over these cases.\<close>

lemma waitLoop_induct [consumes 0, case_names timeout passed challenged type_error raised navigated_passed navigated_again]:
  assumes "\<And>now lastTitle. \<not> now - startTime < maxWaitTime \<Longrightarrow> P now lastTitle"
    and "\<And>now lastTitle d title. now - startTime < maxWaitTime \<Longrightarrow>
           evaluate_info p now = (d, Info title False) \<Longrightarrow> P now lastTitle"
    and "\<And>now lastTitle d title. now - startTime < maxWaitTime \<Longrightarrow>
           evaluate_info p now = (d, Info title True) \<Longrightarrow> P (now + d + 500) title \<Longrightarrow> P now lastTitle"
    and "\<And>now lastTitle d. now - startTime < maxWaitTime \<Longrightarrow>
           evaluate_info p now = (d, Throws Nullish) \<Longrightarrow> P now lastTitle"
    and "\<And>now lastTitle d m. now - startTime < maxWaitTime \<Longrightarrow>
           evaluate_info p now = (d, Throws (ErrorObject m)) \<Longrightarrow> \<not> context_destroyed m \<Longrightarrow> P now lastTitle"
    and "\<And>now lastTitle d m d2. now - startTime < maxWaitTime \<Longrightarrow>
           evaluate_info p now = (d, Throws (ErrorObject m)) \<Longrightarrow> context_destroyed m \<Longrightarrow>
           evaluate_title p (now + d + 1000) = (d2, Still False) \<Longrightarrow> P now lastTitle"
    and "\<And>now lastTitle d m d2 again. now - startTime < maxWaitTime \<Longrightarrow>
           evaluate_info p now = (d, Throws (ErrorObject m)) \<Longrightarrow> context_destroyed m \<Longrightarrow>
           evaluate_title p (now + d + 1000) = (d2, again) \<Longrightarrow> again \<noteq> Still False \<Longrightarrow>
           P (now + d + 1000 + d2 + 500) lastTitle \<Longrightarrow> P now lastTitle"
  shows "P now lastTitle"
proof (induction "startTime + maxWaitTime - now" arbitrary: now lastTitle rule: less_induct)
  case less
  show ?case
  proof (cases rule: waitLoop_cases [where now = now and startTime = startTime and maxWaitTime = maxWaitTime and p = p])
    case timeout
    then show ?thesis by (rule assms(1))
  next
    case (passed d title)
    then show ?thesis by (rule assms(2))
  next
    case (challenged d title)
    from challenged(1) have "startTime + maxWaitTime - (now + d + 500) < startTime + maxWaitTime - now"
      by simp
    from challenged less [OF this] show ?thesis by (rule assms(3))
  next
    case (type_error d)
    then show ?thesis by (rule assms(4))
  next
    case (raised d m)
    then show ?thesis by (rule assms(5))
  next
    case (navigated_passed d m d2)
    then show ?thesis by (rule assms(6))
  next
    case (navigated_again d m d2 again)
    from navigated_again(1)
    have "startTime + maxWaitTime - (now + d + 1000 + d2 + 500) < startTime + maxWaitTime - now"
      by simp
    from navigated_again less [OF this] show ?thesis by (rule assms(7))
  qed
qed

lemma waitLoop_returns:
  assumes "\<forall>t d x. evaluate_info p t = (d, Throws x) \<longrightarrow> (\<exists>m. x = ErrorObject m \<and> context_destroyed m)"
  shows "fst (waitLoop p startTime maxWaitTime now lastTitle) = Returned"
proof (induction now lastTitle rule: waitLoop_induct [where startTime = startTime and maxWaitTime = maxWaitTime and p = p])
  case (timeout now lastTitle)
  then show ?case by (simp add: waitLoop_timeout)
next
  case (passed now lastTitle d title)
  then show ?case by (simp add: waitLoop_passed)
next
  case (challenged now lastTitle d title)
  then show ?case by (simp add: waitLoop_challenged)
next
  case (type_error now lastTitle d)
  with assms show ?case by blast
next
  case (raised now lastTitle d m)
  with assms show ?case by blast
next
  case (navigated_passed now lastTitle d m d2)
  then show ?case by (simp add: waitLoop_navigated_passed)
next
  case (navigated_again now lastTitle d m d2 again)
  then show ?case by (simp add: waitLoop_navigated_again)
qed

lemma waitLoop_times_out:
  assumes "\<forall>t d title h. evaluate_info p t = (d, Info title h) \<longrightarrow> h"
    and "\<forall>t d x. evaluate_info p t = (d, Throws x) \<longrightarrow> (\<exists>m. x = ErrorObject m \<and> context_destroyed m)"
    and "\<forall>t d. evaluate_title p t \<noteq> (d, Still False)"
  shows "\<exists>t lg. waitLoop p startTime maxWaitTime now lastTitle = (Returned, t, lg @ [ChallengeTimeout])
           \<and> now \<le> t \<and> \<not> t - startTime < maxWaitTime"
proof (induction now lastTitle rule: waitLoop_induct [where startTime = startTime and maxWaitTime = maxWaitTime and p = p])
  case (timeout now lastTitle)
  then have "waitLoop p startTime maxWaitTime now lastTitle = (Returned, now, [] @ [ChallengeTimeout])"
    by (simp add: waitLoop_timeout)
  with timeout show ?case by blast
next
  case (passed now lastTitle d title)
  with assms(1) show ?case by blast
next
  case (challenged now lastTitle d title)
  from challenged(3) obtain t lg where
    w: "waitLoop p startTime maxWaitTime (now + d + 500) title = (Returned, t, lg @ [ChallengeTimeout])"
    and t: "now + d + 500 \<le> t" "\<not> t - startTime < maxWaitTime"
    by blast
  have "waitLoop p startTime maxWaitTime now lastTitle
      = (Returned, t, (Poll now # (if title \<noteq> lastTitle then [PageTitle title] else []) @ lg)
                        @ [ChallengeTimeout])"
    by (simp only: waitLoop_challenged [OF challenged(1,2)] w fst_conv snd_conv append_Cons append_assoc)
  with t show ?case by (intro exI conjI) (assumption, simp_all)
next
  case (type_error now lastTitle d)
  with assms(2) show ?case by blast
next
  case (raised now lastTitle d m)
  with assms(2) show ?case by blast
next
  case (navigated_passed now lastTitle d m d2)
  with assms(3) show ?case by blast
next
  case (navigated_again now lastTitle d m d2 again)
  from navigated_again(6) obtain t lg where
    w: "waitLoop p startTime maxWaitTime (now + d + 1000 + d2 + 500) lastTitle
          = (Returned, t, lg @ [ChallengeTimeout])"
    and t: "now + d + 1000 + d2 + 500 \<le> t" "\<not> t - startTime < maxWaitTime"
    by blast
  have "waitLoop p startTime maxWaitTime now lastTitle
      = (Returned, t, (Poll now # NavigatedDuringCheck # lg) @ [ChallengeTimeout])"
    by (simp only: waitLoop_navigated_again [OF navigated_again(1-5)] w fst_conv snd_conv append_Cons)
  with t show ?case by (intro exI conjI) (assumption, simp_all)
qed

lemma poll_budget:
  assumes "0 < (M::nat)"
  shows "(M - (k + 500) + 499) div 500 + 1 \<le> (M + 499) div 500"
proof (cases "M \<le> k + 500")
  case True
  from assms have "500 div 500 \<le> (M + 499) div 500"
    by (intro div_le_mono) simp
  with True show ?thesis by simp
next
  case False
  have "(M - (k + 500) + 499) div 500 + 1 = (M - (k + 500) + 499 + 500) div 500"
    by simp
  also have "\<dots> \<le> (M + 499) div 500"
    using False by (intro div_le_mono) simp
  finally show ?thesis .
qed

text \<open>The evaluations of a run: the first of an iteration, and those of the iterations after it.\<close>

lemma waitLoop_polls_timeout:
  "\<not> now - startTime < maxWaitTime \<Longrightarrow>
     polls (snd (snd (waitLoop p startTime maxWaitTime now lastTitle))) = []"
  by (simp add: waitLoop_timeout)

lemma waitLoop_log_first:
  "now - startTime < maxWaitTime \<Longrightarrow>
     \<exists>rest. snd (snd (waitLoop p startTime maxWaitTime now lastTitle)) = Poll now # rest"
  by (cases rule: waitLoop_cases [where now = now and startTime = startTime and maxWaitTime = maxWaitTime and p = p])
     (simp_all add: waitLoop_passed waitLoop_challenged waitLoop_type_error waitLoop_raised
        waitLoop_navigated_passed waitLoop_navigated_again)

lemma waitLoop_polls_first:
  assumes "now - startTime < maxWaitTime"
  shows "\<exists>ps. polls (snd (snd (waitLoop p startTime maxWaitTime now lastTitle))) = now # ps"
proof -
  from waitLoop_log_first [OF assms] obtain rest where
    "snd (snd (waitLoop p startTime maxWaitTime now lastTitle)) = Poll now # rest"
    by blast
  then show ?thesis by simp
qed

lemma waitLoop_log_nonempty: "snd (snd (waitLoop p startTime maxWaitTime now lastTitle)) \<noteq> []"
proof (cases "now - startTime < maxWaitTime")
  case True
  from waitLoop_log_first [OF this] obtain rest where
    "snd (snd (waitLoop p startTime maxWaitTime now lastTitle)) = Poll now # rest"
    by blast
  then show ?thesis by simp
next
  case False
  then show ?thesis by (simp add: waitLoop_timeout)
qed

lemma waitLoop_polls_challenged:
  "now - startTime < maxWaitTime \<Longrightarrow> evaluate_info p now = (d, Info title True) \<Longrightarrow>
     polls (snd (snd (waitLoop p startTime maxWaitTime now lastTitle)))
       = now # polls (snd (snd (waitLoop p startTime maxWaitTime (now + d + 500) title)))"
  by (simp add: waitLoop_challenged polls_append)

lemma waitLoop_polls_navigated_again:
  "now - startTime < maxWaitTime \<Longrightarrow> evaluate_info p now = (d, Throws (ErrorObject m)) \<Longrightarrow>
   context_destroyed m \<Longrightarrow> evaluate_title p (now + d + 1000) = (d2, again) \<Longrightarrow>
   again \<noteq> Still False \<Longrightarrow>
     polls (snd (snd (waitLoop p startTime maxWaitTime now lastTitle)))
       = now # polls (snd (snd (waitLoop p startTime maxWaitTime (now + d + 1000 + d2 + 500) lastTitle)))"
  by (simp add: waitLoop_navigated_again)

lemma waitLoop_polls_last:
  "now - startTime < maxWaitTime \<Longrightarrow>
   (\<exists>d title. evaluate_info p now = (d, Info title False)) \<or>
   (\<exists>d. evaluate_info p now = (d, Throws Nullish)) \<or>
   (\<exists>d m. evaluate_info p now = (d, Throws (ErrorObject m)) \<and>
      (\<not> context_destroyed m \<or> (\<exists>d2. evaluate_title p (now + d + 1000) = (d2, Still False)))) \<Longrightarrow>
     polls (snd (snd (waitLoop p startTime maxWaitTime now lastTitle))) = [now]"
  by (cases rule: waitLoop_cases [where now = now and startTime = startTime and maxWaitTime = maxWaitTime and p = p])
     (auto simp add: waitLoop_passed waitLoop_type_error waitLoop_raised
        waitLoop_navigated_passed polls_append)

lemma waitLoop_polls:
  "startTime \<le> now \<Longrightarrow>
     length (polls (snd (snd (waitLoop p startTime maxWaitTime now lastTitle))))
       \<le> (startTime + maxWaitTime - now + 499) div 500"
proof (induction now lastTitle rule: waitLoop_induct [where startTime = startTime and maxWaitTime = maxWaitTime and p = p])
  case (timeout now lastTitle)
  then show ?case by (simp add: waitLoop_timeout)
next
  case (passed now lastTitle d title)
  then have "0 < startTime + maxWaitTime - now" by simp
  from poll_budget [OF this, of 0] have "1 \<le> (startTime + maxWaitTime - now + 499) div 500"
    by simp
  with passed show ?case by (simp add: waitLoop_passed polls_append)
next
  case (challenged now lastTitle d title)
  let ?w = "waitLoop p startTime maxWaitTime (now + d + 500) title"
  from challenged have pos: "0 < startTime + maxWaitTime - now" by simp
  from challenged have "length (polls (snd (snd ?w)))
       \<le> (startTime + maxWaitTime - (now + d + 500) + 499) div 500"
    by simp
  then have "length (polls (snd (snd ?w))) + 1
       \<le> (startTime + maxWaitTime - now - (d + 500) + 499) div 500 + 1"
    by simp
  also from pos have "\<dots> \<le> (startTime + maxWaitTime - now + 499) div 500"
    by (rule poll_budget)
  finally have b: "length (polls (snd (snd ?w))) + 1 \<le> (startTime + maxWaitTime - now + 499) div 500" .
  have "length (polls (snd (snd (waitLoop p startTime maxWaitTime now lastTitle))))
      = length (polls (snd (snd ?w))) + 1"
    by (simp add: waitLoop_polls_challenged [OF challenged(1,2)])
  with b show ?case by linarith
next
  case (type_error now lastTitle d)
  then have "0 < startTime + maxWaitTime - now" by simp
  from poll_budget [OF this, of 0] have "1 \<le> (startTime + maxWaitTime - now + 499) div 500"
    by simp
  with type_error show ?case by (simp add: waitLoop_type_error)
next
  case (raised now lastTitle d m)
  then have "0 < startTime + maxWaitTime - now" by simp
  from poll_budget [OF this, of 0] have "1 \<le> (startTime + maxWaitTime - now + 499) div 500"
    by simp
  with raised show ?case by (simp add: waitLoop_raised)
next
  case (navigated_passed now lastTitle d m d2)
  then have "0 < startTime + maxWaitTime - now" by simp
  from poll_budget [OF this, of 0] have "1 \<le> (startTime + maxWaitTime - now + 499) div 500"
    by simp
  with navigated_passed show ?case by (simp add: waitLoop_navigated_passed)
next
  case (navigated_again now lastTitle d m d2 again)
  let ?w = "waitLoop p startTime maxWaitTime (now + d + 1000 + d2 + 500) lastTitle"
  from navigated_again have pos: "0 < startTime + maxWaitTime - now" by simp
  from navigated_again have "length (polls (snd (snd ?w)))
       \<le> (startTime + maxWaitTime - (now + d + 1000 + d2 + 500) + 499) div 500"
    by simp
  then have "length (polls (snd (snd ?w))) + 1
       \<le> (startTime + maxWaitTime - now - (d + 1000 + d2 + 500) + 499) div 500 + 1"
    by simp
  also from pos have "\<dots> \<le> (startTime + maxWaitTime - now + 499) div 500"
    using poll_budget [of "startTime + maxWaitTime - now" "d + 1000 + d2"] by simp
  finally have b: "length (polls (snd (snd ?w))) + 1 \<le> (startTime + maxWaitTime - now + 499) div 500" .
  have "length (polls (snd (snd (waitLoop p startTime maxWaitTime now lastTitle))))
      = length (polls (snd (snd ?w))) + 1"
    by (simp add: waitLoop_polls_navigated_again [OF navigated_again(1-5)])
  with b show ?case by linarith
qed

text \<open>Every evaluation is issued before the deadline, and none before the loop is entered.\<close>

lemma waitLoop_polls_within:
  "\<forall>s \<in> set (polls (snd (snd (waitLoop p startTime maxWaitTime now lastTitle)))).
     now \<le> s \<and> s - startTime < maxWaitTime"
proof (induction now lastTitle rule: waitLoop_induct [where startTime = startTime and maxWaitTime = maxWaitTime and p = p])
  case (timeout now lastTitle)
  then show ?case by (simp add: waitLoop_timeout)
next
  case (passed now lastTitle d title)
  then show ?case by (simp add: waitLoop_passed polls_append)
next
  case (challenged now lastTitle d title)
  let ?w = "waitLoop p startTime maxWaitTime (now + d + 500) title"
  have eq: "polls (snd (snd (waitLoop p startTime maxWaitTime now lastTitle))) = now # polls (snd (snd ?w))"
    by (rule waitLoop_polls_challenged [OF challenged(1,2)])
  from challenged(3) have "\<forall>s \<in> set (polls (snd (snd ?w))). now \<le> s \<and> s - startTime < maxWaitTime"
    by fastforce
  with challenged(1) show ?case by (simp add: eq)
next
  case (type_error now lastTitle d)
  then show ?case by (simp add: waitLoop_type_error)
next
  case (raised now lastTitle d m)
  then show ?case by (simp add: waitLoop_raised)
next
  case (navigated_passed now lastTitle d m d2)
  then show ?case by (simp add: waitLoop_navigated_passed)
next
  case (navigated_again now lastTitle d m d2 again)
  let ?w = "waitLoop p startTime maxWaitTime (now + d + 1000 + d2 + 500) lastTitle"
  have eq: "polls (snd (snd (waitLoop p startTime maxWaitTime now lastTitle))) = now # polls (snd (snd ?w))"
    by (rule waitLoop_polls_navigated_again [OF navigated_again(1-5)])
  from navigated_again(6) have "\<forall>s \<in> set (polls (snd (snd ?w))). now \<le> s \<and> s - startTime < maxWaitTime"
    by fastforce
  with navigated_again(1) show ?case by (simp add: eq)
qed

text \<open>From one evaluation to the next.\<close>

lemma waitLoop_successively:
  assumes c: "\<And>s d title. evaluate_info p s = (d, Info title True) \<Longrightarrow> Q s (s + d + 500)"
    and n: "\<And>s d m d2 again. evaluate_info p s = (d, Throws (ErrorObject m)) \<Longrightarrow> context_destroyed m \<Longrightarrow>
          evaluate_title p (s + d + 1000) = (d2, again) \<Longrightarrow> again \<noteq> Still False \<Longrightarrow>
          Q s (s + d + 1000 + d2 + 500)"
  shows "successively Q (polls (snd (snd (waitLoop p startTime maxWaitTime now lastTitle))))"
proof (induction now lastTitle rule: waitLoop_induct [where startTime = startTime and maxWaitTime = maxWaitTime and p = p])
  case (timeout now lastTitle)
  then show ?case by (simp add: waitLoop_timeout)
next
  case (passed now lastTitle d title)
  then show ?case by (simp add: waitLoop_passed polls_append)
next
  case (challenged now lastTitle d title)
  let ?w = "waitLoop p startTime maxWaitTime (now + d + 500) title"
  have eq: "polls (snd (snd (waitLoop p startTime maxWaitTime now lastTitle))) = now # polls (snd (snd ?w))"
    by (rule waitLoop_polls_challenged [OF challenged(1,2)])
  show ?case
  proof (cases "now + d + 500 - startTime < maxWaitTime")
    case True
    from waitLoop_polls_first [OF this] obtain ps where ps: "polls (snd (snd ?w)) = (now + d + 500) # ps"
      by blast
    from challenged(3) have "successively Q ((now + d + 500) # ps)"
      by (simp only: ps)
    with c [OF challenged(2)] have "successively Q (now # (now + d + 500) # ps)"
      by (simp only: successively.simps simp_thms)
    then show ?thesis by (simp only: eq ps)
  next
    case False
    then show ?thesis by (simp add: eq waitLoop_polls_timeout)
  qed
next
  case (type_error now lastTitle d)
  then show ?case by (simp add: waitLoop_type_error)
next
  case (raised now lastTitle d m)
  then show ?case by (simp add: waitLoop_raised)
next
  case (navigated_passed now lastTitle d m d2)
  then show ?case by (simp add: waitLoop_navigated_passed)
next
  case (navigated_again now lastTitle d m d2 again)
  let ?w = "waitLoop p startTime maxWaitTime (now + d + 1000 + d2 + 500) lastTitle"
  have eq: "polls (snd (snd (waitLoop p startTime maxWaitTime now lastTitle))) = now # polls (snd (snd ?w))"
    by (rule waitLoop_polls_navigated_again [OF navigated_again(1-5)])
  show ?case
  proof (cases "now + d + 1000 + d2 + 500 - startTime < maxWaitTime")
    case True
    from waitLoop_polls_first [OF this] obtain ps where
      ps: "polls (snd (snd ?w)) = (now + d + 1000 + d2 + 500) # ps"
      by blast
    from navigated_again(6) have "successively Q ((now + d + 1000 + d2 + 500) # ps)"
      by (simp only: ps)
    with n [OF navigated_again(2-5)] have "successively Q (now # (now + d + 1000 + d2 + 500) # ps)"
      by (simp only: successively.simps simp_thms)
    then show ?thesis by (simp only: eq ps)
  next
    case False
    then show ?thesis by (simp add: eq waitLoop_polls_timeout)
  qed
qed

text \<open>The last evaluation decides how the call ends.\<close>

lemma waitLoop_end:
  assumes "now - startTime < maxWaitTime"
    and "waitLoop p startTime maxWaitTime now lastTitle = (r, t, lg)"
  shows "case evaluate_info p (last (polls lg)) of
           (d, Info title hasChallenge) \<Rightarrow>
             if hasChallenge then
               r = Returned \<and> t = last (polls lg) + d + 500 \<and> \<not> t - startTime < maxWaitTime \<and>
               last lg = ChallengeTimeout
             else r = Returned \<and> t = last (polls lg) + d \<and> last lg = ChallengePassed
         | (d, Throws Nullish) \<Rightarrow> r = TypeError \<and> t = last (polls lg) + d
         | (d, Throws (ErrorObject m)) \<Rightarrow>
             if context_destroyed m then
               (case evaluate_title p (last (polls lg) + d + 1000) of
                  (d2, again) \<Rightarrow>
                    if again = Still False then
                      r = Returned \<and> t = last (polls lg) + d + 1000 + d2 \<and>
                      last lg = PassedAfterNavigation
                    else
                      r = Returned \<and> t = last (polls lg) + d + 1000 + d2 + 500 \<and>
                      \<not> t - startTime < maxWaitTime \<and> last lg = ChallengeTimeout)
             else r = Raised m \<and> t = last (polls lg) + d"
proof -
  let ?E = "\<lambda>r t s l. case evaluate_info p s of
           (d, Info title hasChallenge) \<Rightarrow>
             if hasChallenge then
               r = Returned \<and> t = s + d + 500 \<and> \<not> t - startTime < maxWaitTime \<and>
               l = ChallengeTimeout
             else r = Returned \<and> t = s + d \<and> l = ChallengePassed
         | (d, Throws Nullish) \<Rightarrow> r = TypeError \<and> t = s + d
         | (d, Throws (ErrorObject m)) \<Rightarrow>
             if context_destroyed m then
               (case evaluate_title p (s + d + 1000) of
                  (d2, again) \<Rightarrow>
                    if again = Still False then
                      r = Returned \<and> t = s + d + 1000 + d2 \<and> l = PassedAfterNavigation
                    else
                      r = Returned \<and> t = s + d + 1000 + d2 + 500 \<and>
                      \<not> t - startTime < maxWaitTime \<and> l = ChallengeTimeout)
             else r = Raised m \<and> t = s + d"
  have "\<forall>r t lg. now - startTime < maxWaitTime \<longrightarrow>
          waitLoop p startTime maxWaitTime now lastTitle = (r, t, lg) \<longrightarrow>
          ?E r t (last (polls lg)) (last lg)"
  proof (induction now lastTitle rule: waitLoop_induct [where startTime = startTime and maxWaitTime = maxWaitTime and p = p])
    case (timeout now lastTitle)
    then show ?case by simp
  next
    case (passed now lastTitle d title)
    show ?case
    proof (intro allI impI)
      fix r t lg
      assume "waitLoop p startTime maxWaitTime now lastTitle = (r, t, lg)"
      with waitLoop_passed [OF passed, of lastTitle]
      have "r = Returned" "t = now + d"
        "lg = Poll now # (if title \<noteq> lastTitle then [PageTitle title] else []) @ [ChallengePassed]"
        by simp_all
      then have "r = Returned" "t = now + d" "last (polls lg) = now" "last lg = ChallengePassed"
        by (simp_all add: polls_append)
      with passed(2) show "?E r t (last (polls lg)) (last lg)" by simp
    qed
  next
    case (challenged now lastTitle d title)
    let ?w = "waitLoop p startTime maxWaitTime (now + d + 500) title"
    show ?case
    proof (intro allI impI)
      fix r t lg
      assume "waitLoop p startTime maxWaitTime now lastTitle = (r, t, lg)"
      with waitLoop_challenged [OF challenged(1,2), of lastTitle]
      have r: "r = fst ?w" and t: "t = fst (snd ?w)"
        and lg: "lg = Poll now # (if title \<noteq> lastTitle then [PageTitle title] else []) @ snd (snd ?w)"
        by simp_all
      show "?E r t (last (polls lg)) (last lg)"
      proof (cases "now + d + 500 - startTime < maxWaitTime")
        case True
        from waitLoop_polls_first [OF True] obtain ps where
          ps: "polls (snd (snd ?w)) = (now + d + 500) # ps"
          by blast
        have l1: "last (polls lg) = last (polls (snd (snd ?w)))"
          by (simp only: lg polls.simps polls_append ps last_ConsR last_appendR list.distinct
                not_False_eq_True append_Cons)
             (simp add: polls_append ps)
        have l2: "last lg = last (snd (snd ?w))"
          by (simp add: lg waitLoop_log_nonempty)
        have "?w = (r, t, snd (snd ?w))" by (simp add: r t)
        from challenged(3) [rule_format, OF True this]
        have "?E r t (last (polls (snd (snd ?w)))) (last (snd (snd ?w)))" .
        then show ?thesis by (simp only: l1 l2)
      next
        case False
        then have w: "?w = (Returned, now + d + 500, [ChallengeTimeout])"
          by (rule waitLoop_timeout)
        have "r = Returned" "t = now + d + 500"
          by (simp_all only: r t w fst_conv snd_conv)
        moreover have "lg = Poll now # (if title \<noteq> lastTitle then [PageTitle title] else [])
            @ [ChallengeTimeout]"
          by (simp only: lg w snd_conv)
        then have "last (polls lg) = now" "last lg = ChallengeTimeout"
          by (simp_all add: polls_append)
        ultimately have "r = Returned" "t = now + d + 500" "last (polls lg) = now"
          "last lg = ChallengeTimeout"
          by blast+
        with challenged(2) False show ?thesis by simp
      qed
    qed
  next
    case (type_error now lastTitle d)
    show ?case
    proof (intro allI impI)
      fix r t lg
      assume "waitLoop p startTime maxWaitTime now lastTitle = (r, t, lg)"
      with waitLoop_type_error [OF type_error, of lastTitle]
      have "r = TypeError" "t = now + d" "lg = [Poll now]"
        by simp_all
      with type_error(2) show "?E r t (last (polls lg)) (last lg)" by simp
    qed
  next
    case (raised now lastTitle d m)
    show ?case
    proof (intro allI impI)
      fix r t lg
      assume "waitLoop p startTime maxWaitTime now lastTitle = (r, t, lg)"
      with waitLoop_raised [OF raised, of lastTitle]
      have "r = Raised m" "t = now + d" "lg = [Poll now]"
        by simp_all
      with raised(2,3) show "?E r t (last (polls lg)) (last lg)" by simp
    qed
  next
    case (navigated_passed now lastTitle d m d2)
    show ?case
    proof (intro allI impI)
      fix r t lg
      assume "waitLoop p startTime maxWaitTime now lastTitle = (r, t, lg)"
      with waitLoop_navigated_passed [OF navigated_passed, of lastTitle]
      have "r = Returned" "t = now + d + 1000 + d2"
        "lg = [Poll now, NavigatedDuringCheck, PassedAfterNavigation]"
        by simp_all
      then have "r = Returned" "t = now + d + 1000 + d2" "last (polls lg) = now"
        "last lg = PassedAfterNavigation"
        by simp_all
      with navigated_passed(2,3,4) show "?E r t (last (polls lg)) (last lg)" by simp
    qed
  next
    case (navigated_again now lastTitle d m d2 again)
    let ?w = "waitLoop p startTime maxWaitTime (now + d + 1000 + d2 + 500) lastTitle"
    show ?case
    proof (intro allI impI)
      fix r t lg
      assume "waitLoop p startTime maxWaitTime now lastTitle = (r, t, lg)"
      with waitLoop_navigated_again [OF navigated_again(1-5), of lastTitle]
      have r: "r = fst ?w" and t: "t = fst (snd ?w)"
        and lg: "lg = Poll now # NavigatedDuringCheck # snd (snd ?w)"
        by simp_all
      show "?E r t (last (polls lg)) (last lg)"
      proof (cases "now + d + 1000 + d2 + 500 - startTime < maxWaitTime")
        case True
        from waitLoop_polls_first [OF True] obtain ps where
          ps: "polls (snd (snd ?w)) = (now + d + 1000 + d2 + 500) # ps"
          by blast
        have l1: "last (polls lg) = last (polls (snd (snd ?w)))"
          by (simp only: lg polls.simps ps last_ConsR list.distinct not_False_eq_True)
        have l2: "last lg = last (snd (snd ?w))"
          by (simp add: lg waitLoop_log_nonempty)
        have "?w = (r, t, snd (snd ?w))" by (simp add: r t)
        from navigated_again(6) [rule_format, OF True this]
        have "?E r t (last (polls (snd (snd ?w)))) (last (snd (snd ?w)))" .
        then show ?thesis by (simp only: l1 l2)
      next
        case False
        then have w: "?w = (Returned, now + d + 1000 + d2 + 500, [ChallengeTimeout])"
          by (rule waitLoop_timeout)
        have "r = Returned" "t = now + d + 1000 + d2 + 500"
          by (simp_all only: r t w fst_conv snd_conv)
        moreover have "lg = [Poll now, NavigatedDuringCheck, ChallengeTimeout]"
          by (simp only: lg w snd_conv)
        then have "last (polls lg) = now" "last lg = ChallengeTimeout"
          by simp_all
        ultimately have "r = Returned" "t = now + d + 1000 + d2 + 500" "last (polls lg) = now"
          "last lg = ChallengeTimeout"
          by blast+
        with navigated_again(2-5) False show ?thesis by simp
      qed
    qed
  qed
  from this [rule_format, OF assms] show ?thesis .
qed

lemma ceil_step:
  assumes "0 < (M::nat)"
  shows "(M + k + 499) div (k + 500) = Suc ((M - (k + 500) + k + 499) div (k + 500))"
proof (cases "M \<le> k + 500")
  case True
  have "(M + k + 499) div (k + 500) = 1"
    using assms True by (intro div_nat_eqI) simp_all
  with True show ?thesis by simp
next
  case False
  then have "M + k + 499 = (M - (k + 500) + k + 499) + (k + 500)" by simp
  then have "(M + k + 499) div (k + 500) = ((M - (k + 500) + k + 499) + (k + 500)) div (k + 500)"
    by (rule arg_cong)
  also have "\<dots> = Suc ((M - (k + 500) + k + 499) div (k + 500))"
  proof -
    have step: "(a + n) div n = Suc (a div n)" if "0 < n" for a n :: nat
      using that by simp
    show ?thesis by (rule step) simp
  qed
  finally show ?thesis .
qed

text \<open>A challenge that stays, on a page that answers in \<open>d\<close> milliseconds each time.\<close>

lemma waitLoop_fixed_interval:
  assumes a: "\<forall>s. \<exists>title. evaluate_info p s = (d, Info title True)"
  shows "startTime \<le> now \<longrightarrow>
     polls (snd (snd (waitLoop p startTime maxWaitTime now lastTitle)))
       = map (\<lambda>i. now + i * (d + 500)) [0..<(startTime + maxWaitTime - now + d + 499) div (d + 500)] \<and>
     fst (snd (waitLoop p startTime maxWaitTime now lastTitle))
       = now + (startTime + maxWaitTime - now + d + 499) div (d + 500) * (d + 500)"
proof (induction now lastTitle rule: waitLoop_induct [where startTime = startTime and maxWaitTime = maxWaitTime and p = p])
  case (timeout now lastTitle)
  show ?case
  proof
    assume "startTime \<le> now"
    with timeout have "startTime + maxWaitTime - now = 0" by simp
    with timeout show "polls (snd (snd (waitLoop p startTime maxWaitTime now lastTitle)))
       = map (\<lambda>i. now + i * (d + 500)) [0..<(startTime + maxWaitTime - now + d + 499) div (d + 500)] \<and>
     fst (snd (waitLoop p startTime maxWaitTime now lastTitle))
       = now + (startTime + maxWaitTime - now + d + 499) div (d + 500) * (d + 500)"
      by (simp add: waitLoop_timeout)
  qed
next
  case (passed now lastTitle d' title)
  with a show ?case by (metis Pair_inject probe.inject(1))
next
  case (challenged now lastTitle d' title)
  from a challenged(2) have d: "d' = d" by (metis Pair_inject)
  let ?w = "waitLoop p startTime maxWaitTime (now + d + 500) title"
  let ?M = "startTime + maxWaitTime - now"
  let ?N = "(?M - (d + 500) + d + 499) div (d + 500)"
  show ?case
  proof
    assume le: "startTime \<le> now"
    with challenged(1) have "0 < ?M" by simp
    then have N: "(?M + d + 499) div (d + 500) = Suc ?N" by (rule ceil_step)
    have M': "startTime + maxWaitTime - (now + d + 500) = ?M - (d + 500)" by simp
    from le challenged(3) have ih: "polls (snd (snd ?w)) = map (\<lambda>i. now + d + 500 + i * (d + 500)) [0..<?N]"
      "fst (snd ?w) = now + d + 500 + ?N * (d + 500)"
      by (simp_all only: d M')
    have "polls (snd (snd (waitLoop p startTime maxWaitTime now lastTitle))) = now # polls (snd (snd ?w))"
      using waitLoop_polls_challenged [OF challenged(1,2)] by (simp only: d)
    also have "\<dots> = map (\<lambda>i. now + i * (d + 500)) [0..<Suc ?N]"
      by (simp only: ih map_upt_Suc) (simp add: algebra_simps)
    finally have 1: "polls (snd (snd (waitLoop p startTime maxWaitTime now lastTitle)))
        = map (\<lambda>i. now + i * (d + 500)) [0..<(?M + d + 499) div (d + 500)]"
      by (simp only: N)
    have "fst (snd (waitLoop p startTime maxWaitTime now lastTitle)) = fst (snd ?w)"
      using waitLoop_challenged [OF challenged(1,2), of lastTitle] by (simp add: d)
    also have "\<dots> = now + Suc ?N * (d + 500)"
      by (simp only: ih) simp
    finally have 2: "fst (snd (waitLoop p startTime maxWaitTime now lastTitle))
        = now + (?M + d + 499) div (d + 500) * (d + 500)"
      by (simp only: N)
    from 1 2 show "polls (snd (snd (waitLoop p startTime maxWaitTime now lastTitle)))
       = map (\<lambda>i. now + i * (d + 500)) [0..<(?M + d + 499) div (d + 500)] \<and>
     fst (snd (waitLoop p startTime maxWaitTime now lastTitle))
       = now + (?M + d + 499) div (d + 500) * (d + 500)"
      by (rule conjI)
  qed
next
  case (type_error now lastTitle d')
  with a show ?case by (metis Pair_inject probe.distinct(1))
next
  case (raised now lastTitle d' m)
  with a show ?case by (metis Pair_inject probe.distinct(1))
next
  case (navigated_passed now lastTitle d' m d2)
  with a show ?case by (metis Pair_inject probe.distinct(1))
next
  case (navigated_again now lastTitle d' m d2 again)
  with a show ?case by (metis Pair_inject probe.distinct(1))
qed

text \<open>Two runs: a challenge that stays for a second, and a navigation that clears it.\<close>

lemma ex_challenged_run:
  "waitForCloudflare ex_challenged 1000 0
     = (Returned, 1000, [Poll 0, PageTitle ''Just a moment...'', Poll 500, ChallengeTimeout])"
  by (simp add: waitForCloudflare_def waitLoop.simps ex_challenged_def)

lemma ex_navigated_run:
  "waitForCloudflare ex_navigated 45000 0
     = (Returned, 1015, [Poll 0, NavigatedDuringCheck, PassedAfterNavigation])"
  by (simp add: waitForCloudflare_def waitLoop.simps ex_navigated_def context_destroyed_def)

text \<open>
  C8. A call of \<open>waitForCloudflare\<close> at time \<open>t0\<close> that ends at time \<open>t\<close> with
  the result \<open>r\<close> and the log \<open>lg\<close>. Unless \<open>maxWaitTime\<close> is 0 the call begins
  by evaluating the challenge signal, at \<open>t0\<close>; with \<open>maxWaitTime\<close> 0 it returns at
  once with the timeout warning. Every evaluation is issued before the deadline. Each
  evaluation but the first is issued 500 ms after the end of the one before, which
  showed the challenge; or, when the one before failed with a destroyed execution
  context, after a pause of a second, one re-check that still showed a challenge title
  (or failed), and the same 500 ms. The last evaluation decides the end: without a
  challenge the call returns at once; with a challenge it sleeps 500 ms, the deadline has
  passed, and it returns normally with the timeout warning as the last thing logged; a
  failure with \<open>null\<close> or \<open>undefined\<close> raises a \<open>TypeError\<close>, a failure other
  than a destroyed execution context is raised again; after a destroyed execution
  context the call pauses a second and re-checks once, returns if the challenge title is
  gone, and otherwise sleeps 500 ms and returns normally with the timeout warning, the
  deadline having passed. The signal is evaluated at most once per 500 ms of
  \<open>maxWaitTime\<close>. When no evaluation fails otherwise than with a destroyed execution
  context the call returns normally; when moreover the challenge never clears, it
  returns once \<open>maxWaitTime\<close> has elapsed, with the timeout warning. On a page that
  always shows the challenge and answers in \<open>d\<close> milliseconds, the evaluations are
  issued every \<open>d + 500\<close> milliseconds from \<open>t0\<close> up to the deadline.
\<close>

theorem waitForCloudflare_polling:
  assumes "waitForCloudflare p maxWaitTime t0 = (r, t, lg)"
  shows "(0 < maxWaitTime \<longrightarrow> (\<exists>rest. lg = Poll t0 # rest)) \<and>
   (maxWaitTime = 0 \<longrightarrow> r = Returned \<and> t = t0 \<and> lg = [ChallengeTimeout]) \<and>
   (\<forall>s \<in> set (polls lg). t0 \<le> s \<and> s - t0 < maxWaitTime) \<and>
   successively
     (\<lambda>s s'.
        (\<exists>d title. evaluate_info p s = (d, Info title True) \<and> s' = s + d + 500) \<or>
        (\<exists>d m d2 again. evaluate_info p s = (d, Throws (ErrorObject m)) \<and> context_destroyed m \<and>
           evaluate_title p (s + d + 1000) = (d2, again) \<and> again \<noteq> Still False \<and>
           s' = s + d + 1000 + d2 + 500))
     (polls lg) \<and>
   (0 < maxWaitTime \<longrightarrow>
      (case evaluate_info p (last (polls lg)) of
         (d, Info title hasChallenge) \<Rightarrow>
           if hasChallenge then
             r = Returned \<and> t = last (polls lg) + d + 500 \<and> \<not> t - t0 < maxWaitTime \<and>
             last lg = ChallengeTimeout
           else r = Returned \<and> t = last (polls lg) + d \<and> last lg = ChallengePassed
       | (d, Throws Nullish) \<Rightarrow> r = TypeError \<and> t = last (polls lg) + d
       | (d, Throws (ErrorObject m)) \<Rightarrow>
           if context_destroyed m then
             (case evaluate_title p (last (polls lg) + d + 1000) of
                (d2, again) \<Rightarrow>
                  if again = Still False then
                    r = Returned \<and> t = last (polls lg) + d + 1000 + d2 \<and>
                    last lg = PassedAfterNavigation
                  else
                    r = Returned \<and> t = last (polls lg) + d + 1000 + d2 + 500 \<and>
                    \<not> t - t0 < maxWaitTime \<and> last lg = ChallengeTimeout)
           else r = Raised m \<and> t = last (polls lg) + d)) \<and>
   length (polls lg) \<le> (maxWaitTime + 499) div 500 \<and>
   ((\<forall>s d x. evaluate_info p s = (d, Throws x) \<longrightarrow> (\<exists>m. x = ErrorObject m \<and> context_destroyed m))
      \<longrightarrow> r = Returned) \<and>
   ((\<forall>s d title h. evaluate_info p s = (d, Info title h) \<longrightarrow> h) \<and>
    (\<forall>s d x. evaluate_info p s = (d, Throws x) \<longrightarrow> (\<exists>m. x = ErrorObject m \<and> context_destroyed m)) \<and>
    (\<forall>s d. evaluate_title p s \<noteq> (d, Still False))
      \<longrightarrow> r = Returned \<and> maxWaitTime \<le> t - t0 \<and> (\<exists>lg'. lg = lg' @ [ChallengeTimeout])) \<and>
   (\<forall>d. (\<forall>s. \<exists>title. evaluate_info p s = (d, Info title True))
      \<longrightarrow> polls lg = map (\<lambda>i. t0 + i * (d + 500)) [0..<(maxWaitTime + d + 499) div (d + 500)] \<and>
          r = Returned \<and> t = t0 + (maxWaitTime + d + 499) div (d + 500) * (d + 500) \<and>
          last lg = ChallengeTimeout)"
proof -
  from assms have w: "waitLoop p t0 maxWaitTime t0 [] = (r, t, lg)"
    by (simp only: waitForCloudflare_def)
  then have r: "r = fst (waitLoop p t0 maxWaitTime t0 [])"
    and t: "t = fst (snd (waitLoop p t0 maxWaitTime t0 []))"
    and lg: "lg = snd (snd (waitLoop p t0 maxWaitTime t0 []))"
    by simp_all
  have c1: "0 < maxWaitTime \<longrightarrow> (\<exists>rest. lg = Poll t0 # rest)"
  proof
    assume "0 < maxWaitTime"
    then have "t0 - t0 < maxWaitTime" by simp
    from waitLoop_log_first [OF this] show "\<exists>rest. lg = Poll t0 # rest"
      by (simp only: lg)
  qed
  have c2: "maxWaitTime = 0 \<longrightarrow> r = Returned \<and> t = t0 \<and> lg = [ChallengeTimeout]"
  proof
    assume "maxWaitTime = 0"
    then have "\<not> t0 - t0 < maxWaitTime" by simp
    from waitLoop_timeout [OF this, of p "[]"] w show "r = Returned \<and> t = t0 \<and> lg = [ChallengeTimeout]"
      by simp
  qed
  have c3: "\<forall>s \<in> set (polls lg). t0 \<le> s \<and> s - t0 < maxWaitTime"
    unfolding lg by (rule waitLoop_polls_within)
  have c4: "successively
     (\<lambda>s s'.
        (\<exists>d title. evaluate_info p s = (d, Info title True) \<and> s' = s + d + 500) \<or>
        (\<exists>d m d2 again. evaluate_info p s = (d, Throws (ErrorObject m)) \<and> context_destroyed m \<and>
           evaluate_title p (s + d + 1000) = (d2, again) \<and> again \<noteq> Still False \<and>
           s' = s + d + 1000 + d2 + 500))
     (polls lg)"
    unfolding lg by (rule waitLoop_successively) blast+
  have c5: "0 < maxWaitTime \<longrightarrow>
      (case evaluate_info p (last (polls lg)) of
         (d, Info title hasChallenge) \<Rightarrow>
           if hasChallenge then
             r = Returned \<and> t = last (polls lg) + d + 500 \<and> \<not> t - t0 < maxWaitTime \<and>
             last lg = ChallengeTimeout
           else r = Returned \<and> t = last (polls lg) + d \<and> last lg = ChallengePassed
       | (d, Throws Nullish) \<Rightarrow> r = TypeError \<and> t = last (polls lg) + d
       | (d, Throws (ErrorObject m)) \<Rightarrow>
           if context_destroyed m then
             (case evaluate_title p (last (polls lg) + d + 1000) of
                (d2, again) \<Rightarrow>
                  if again = Still False then
                    r = Returned \<and> t = last (polls lg) + d + 1000 + d2 \<and>
                    last lg = PassedAfterNavigation
                  else
                    r = Returned \<and> t = last (polls lg) + d + 1000 + d2 + 500 \<and>
                    \<not> t - t0 < maxWaitTime \<and> last lg = ChallengeTimeout)
           else r = Raised m \<and> t = last (polls lg) + d)"
  proof
    assume "0 < maxWaitTime"
    then have "t0 - t0 < maxWaitTime" by simp
    from this w show "case evaluate_info p (last (polls lg)) of
         (d, Info title hasChallenge) \<Rightarrow>
           if hasChallenge then
             r = Returned \<and> t = last (polls lg) + d + 500 \<and> \<not> t - t0 < maxWaitTime \<and>
             last lg = ChallengeTimeout
           else r = Returned \<and> t = last (polls lg) + d \<and> last lg = ChallengePassed
       | (d, Throws Nullish) \<Rightarrow> r = TypeError \<and> t = last (polls lg) + d
       | (d, Throws (ErrorObject m)) \<Rightarrow>
           if context_destroyed m then
             (case evaluate_title p (last (polls lg) + d + 1000) of
                (d2, again) \<Rightarrow>
                  if again = Still False then
                    r = Returned \<and> t = last (polls lg) + d + 1000 + d2 \<and>
                    last lg = PassedAfterNavigation
                  else
                    r = Returned \<and> t = last (polls lg) + d + 1000 + d2 + 500 \<and>
                    \<not> t - t0 < maxWaitTime \<and> last lg = ChallengeTimeout)
           else r = Raised m \<and> t = last (polls lg) + d"
      by (rule waitLoop_end)
  qed
  have c6: "length (polls lg) \<le> (maxWaitTime + 499) div 500"
    using waitLoop_polls [of t0 t0 p maxWaitTime "[]"] by (simp add: lg)
  have c7: "(\<forall>s d x. evaluate_info p s = (d, Throws x) \<longrightarrow> (\<exists>m. x = ErrorObject m \<and> context_destroyed m))
      \<longrightarrow> r = Returned"
    unfolding r by (rule impI) (rule waitLoop_returns)
  have c8: "(\<forall>s d title h. evaluate_info p s = (d, Info title h) \<longrightarrow> h) \<and>
    (\<forall>s d x. evaluate_info p s = (d, Throws x) \<longrightarrow> (\<exists>m. x = ErrorObject m \<and> context_destroyed m)) \<and>
    (\<forall>s d. evaluate_title p s \<noteq> (d, Still False))
      \<longrightarrow> r = Returned \<and> maxWaitTime \<le> t - t0 \<and> (\<exists>lg'. lg = lg' @ [ChallengeTimeout])"
  proof
    assume h: "(\<forall>s d title h. evaluate_info p s = (d, Info title h) \<longrightarrow> h) \<and>
      (\<forall>s d x. evaluate_info p s = (d, Throws x) \<longrightarrow> (\<exists>m. x = ErrorObject m \<and> context_destroyed m)) \<and>
      (\<forall>s d. evaluate_title p s \<noteq> (d, Still False))"
    from waitLoop_times_out [OF h [THEN conjunct1] h [THEN conjunct2, THEN conjunct1]
        h [THEN conjunct2, THEN conjunct2], of t0 maxWaitTime t0 "[]"]
    obtain t' lg' where "waitLoop p t0 maxWaitTime t0 [] = (Returned, t', lg' @ [ChallengeTimeout])"
      "\<not> t' - t0 < maxWaitTime"
      by blast
    with w have "r = Returned" "t = t'" "lg = lg' @ [ChallengeTimeout]" "\<not> t' - t0 < maxWaitTime"
      by simp_all
    then show "r = Returned \<and> maxWaitTime \<le> t - t0 \<and> (\<exists>lg'. lg = lg' @ [ChallengeTimeout])"
      by auto
  qed
  have c9: "\<forall>d. (\<forall>s. \<exists>title. evaluate_info p s = (d, Info title True))
      \<longrightarrow> polls lg = map (\<lambda>i. t0 + i * (d + 500)) [0..<(maxWaitTime + d + 499) div (d + 500)] \<and>
          r = Returned \<and> t = t0 + (maxWaitTime + d + 499) div (d + 500) * (d + 500) \<and>
          last lg = ChallengeTimeout"
  proof (intro allI impI)
    fix d
    assume a: "\<forall>s. \<exists>title. evaluate_info p s = (d, Info title True)"
    from waitLoop_fixed_interval [OF a, of t0 t0 maxWaitTime "[]"]
    have f: "polls lg = map (\<lambda>i. t0 + i * (d + 500)) [0..<(maxWaitTime + d + 499) div (d + 500)]"
      "t = t0 + (maxWaitTime + d + 499) div (d + 500) * (d + 500)"
      by (simp_all add: lg t)
    from a have "\<forall>s d x. evaluate_info p s = (d, Throws x) \<longrightarrow> (\<exists>m. x = ErrorObject m \<and> context_destroyed m)"
      by (metis Pair_inject probe.distinct(1))
    with c7 have ret: "r = Returned" by (rule mp)
    have "last lg = ChallengeTimeout"
    proof (cases "0 < maxWaitTime")
      case True
      from a obtain title where "evaluate_info p (last (polls lg)) = (d, Info title True)"
        by blast
      with c5 True show ?thesis by simp
    next
      case False
      with c2 show ?thesis by simp
    qed
    with f ret show "polls lg = map (\<lambda>i. t0 + i * (d + 500)) [0..<(maxWaitTime + d + 499) div (d + 500)] \<and>
          r = Returned \<and> t = t0 + (maxWaitTime + d + 499) div (d + 500) * (d + 500) \<and>
          last lg = ChallengeTimeout"
      by (intro conjI)
  qed
  from c1 c2 c3 c4 c5 c6 c7 c8 c9 show ?thesis by (intro conjI)
qed

theorem waitForCloudflare_polling_witness:
  "waitForCloudflare ex_challenged 1000 0
     = (Returned, 1000, [Poll 0, PageTitle ''Just a moment...'', Poll 500, ChallengeTimeout]) \<and>
   (\<exists>rest. [Poll 0, PageTitle ''Just a moment...'', Poll 500, ChallengeTimeout] = Poll 0 # rest) \<and>
   polls [Poll 0, PageTitle ''Just a moment...'', Poll 500, ChallengeTimeout]
     = map (\<lambda>i. 0 + i * (0 + 500)) [0..<(1000 + 0 + 499) div (0 + 500)] \<and>
   waitForCloudflare ex_navigated 45000 0
     = (Returned, 1015, [Poll 0, NavigatedDuringCheck, PassedAfterNavigation]) \<and>
   (1015::nat) = last (polls [Poll 0, NavigatedDuringCheck, PassedAfterNavigation]) + 10 + 1000 + 5 \<and>
   last [Poll 0, NavigatedDuringCheck, PassedAfterNavigation] = PassedAfterNavigation"
proof -
  note e = ex_challenged_run
  note f = ex_navigated_run
  note c = waitForCloudflare_polling [OF e]
  note n = waitForCloudflare_polling [OF f]
  have pos: "(0::nat) < 1000" by simp
  from c [THEN conjunct1] pos
  have 1: "\<exists>rest. [Poll 0, PageTitle ''Just a moment...'', Poll 500, ChallengeTimeout] = Poll 0 # rest"
    by (rule mp)
  have always: "\<forall>s. \<exists>title. evaluate_info ex_challenged s = (0, Info title True)"
    by (simp add: ex_challenged_def)
  from c [THEN conjunct2, THEN conjunct2, THEN conjunct2, THEN conjunct2, THEN conjunct2,
          THEN conjunct2, THEN conjunct2, THEN conjunct2, THEN spec, THEN mp, OF always,
          THEN conjunct1]
  have 2: "polls [Poll 0, PageTitle ''Just a moment...'', Poll 500, ChallengeTimeout]
     = map (\<lambda>i. 0 + i * (0 + 500)) [0..<(1000 + 0 + 499) div (0 + 500)]" .
  have pos': "(0::nat) < 45000" by simp
  from n [THEN conjunct2, THEN conjunct2, THEN conjunct2, THEN conjunct2, THEN conjunct1] pos'
  have "case evaluate_info ex_navigated (last (polls [Poll 0, NavigatedDuringCheck, PassedAfterNavigation])) of
         (d, Info title hasChallenge) \<Rightarrow>
           if hasChallenge then
             Returned = Returned \<and>
             1015 = last (polls [Poll 0, NavigatedDuringCheck, PassedAfterNavigation]) + d + 500 \<and>
             \<not> 1015 - 0 < (45000::nat) \<and>
             last [Poll 0, NavigatedDuringCheck, PassedAfterNavigation] = ChallengeTimeout
           else Returned = Returned \<and>
             1015 = last (polls [Poll 0, NavigatedDuringCheck, PassedAfterNavigation]) + d \<and>
             last [Poll 0, NavigatedDuringCheck, PassedAfterNavigation] = ChallengePassed
       | (d, Throws Nullish) \<Rightarrow> Returned = TypeError \<and>
             1015 = last (polls [Poll 0, NavigatedDuringCheck, PassedAfterNavigation]) + d
       | (d, Throws (ErrorObject m)) \<Rightarrow>
           if context_destroyed m then
             (case evaluate_title ex_navigated
                     (last (polls [Poll 0, NavigatedDuringCheck, PassedAfterNavigation]) + d + 1000) of
                (d2, again) \<Rightarrow>
                  if again = Still False then
                    Returned = Returned \<and>
                    1015 = last (polls [Poll 0, NavigatedDuringCheck, PassedAfterNavigation]) + d + 1000 + d2 \<and>
                    last [Poll 0, NavigatedDuringCheck, PassedAfterNavigation] = PassedAfterNavigation
                  else
                    Returned = Returned \<and>
                    1015 = last (polls [Poll 0, NavigatedDuringCheck, PassedAfterNavigation]) + d + 1000 + d2 + 500 \<and>
                    \<not> 1015 - 0 < (45000::nat) \<and>
                    last [Poll 0, NavigatedDuringCheck, PassedAfterNavigation] = ChallengeTimeout)
           else Returned = Raised m \<and>
             1015 = last (polls [Poll 0, NavigatedDuringCheck, PassedAfterNavigation]) + d"
    by (rule mp)
  then have 3: "(1015::nat) = last (polls [Poll 0, NavigatedDuringCheck, PassedAfterNavigation]) + 10 + 1000 + 5 \<and>
      last [Poll 0, NavigatedDuringCheck, PassedAfterNavigation] = PassedAfterNavigation"
    by (simp add: ex_navigated_def context_destroyed_def)
  from e 1 2 f 3 [THEN conjunct1] 3 [THEN conjunct2] show ?thesis by (intro conjI)
qed

end
